theory Spec2Isabelle
  imports Complex_Main
begin

section \<open>JavaScript strings\<close>

text \<open>
  Strings are lists of characters; a character stands for a UTF-16 code unit below 256.
  A number of the program is a double. Where the program multiplies a seconds value by
  1000 the embedding rounds as the double product does (\<open>toDouble\<close>, below); integers
  below \<open>2^53\<close> are doubles and the arithmetic on them is exact, so it is written on
  \<open>int\<close>. The numbers that \<open>Number\<close> reads from a text in shift-timing.js are exact
  rationals.
\<close>

definition isWhiteSpace :: "char \<Rightarrow> bool" where
  \<comment> \<open>the white space and line terminator code units that \<open>trim\<close>, \<open>\s\<close> and \<open>Number\<close> skip\<close>
  "isWhiteSpace c =
     (c = CHR 0x09 \<or> c = CHR 0x0A \<or> c = CHR 0x0B \<or> c = CHR 0x0C \<or> c = CHR 0x0D
      \<or> c = CHR '' '' \<or> c = CHR 0xA0)"

definition js_trim :: "string \<Rightarrow> string" where
  \<comment> \<open>\<open>s.trim()\<close>\<close>
  "js_trim s = rev (dropWhile isWhiteSpace (rev (dropWhile isWhiteSpace s)))"

fun js_split :: "string \<Rightarrow> char \<Rightarrow> string list" where
  \<comment> \<open>\<open>s.split(sep)\<close> for a separator of one character\<close>
  "js_split [] sep = [[]]"
| "js_split (c # cs) sep =
     (if c = sep then [] # js_split cs sep
      else case js_split cs sep of
             piece # pieces \<Rightarrow> (c # piece) # pieces
           | [] \<Rightarrow> [[c]])"

fun js_join :: "string list \<Rightarrow> string \<Rightarrow> string" where
  \<comment> \<open>\<open>xs.join(sep)\<close>\<close>
  "js_join [] sep = []"
| "js_join [x] sep = x"
| "js_join (x # y # ys) sep = x @ sep @ js_join (y # ys) sep"

fun js_includes :: "string \<Rightarrow> string \<Rightarrow> bool" where
  \<comment> \<open>\<open>s.includes(pat)\<close>\<close>
  "js_includes [] pat = (pat = [])"
| "js_includes (c # cs) pat = (take (length pat) (c # cs) = pat \<or> js_includes cs pat)"

section \<open>Integers as text\<close>

definition digit :: "nat \<Rightarrow> char" where
  "digit d = ''0123456789'' ! (d mod 10)"

fun digits :: "nat \<Rightarrow> string" where
  "digits n = (if n < 10 then [digit n] else digits (n div 10) @ [digit (n mod 10)])"

declare digits.simps [simp del]

definition toString :: "int \<Rightarrow> string" where
  \<comment> \<open>\<open>num.toString()\<close> of an integer (plain decimal, as JavaScript prints below \<open>10^21\<close>);
      minus zero prints as \<open>0\<close>, so the integer 0 stands for both zeros\<close>
  "toString n = (if n < 0 then CHR ''-'' # digits (nat (- n)) else digits (nat n))"

definition js_rem :: "int \<Rightarrow> int \<Rightarrow> int" where
  \<comment> \<open>\<open>a % b\<close> on integers: the remainder takes the sign of the dividend\<close>
  "js_rem a b = sgn a * (\<bar>a\<bar> mod \<bar>b\<bar>)"

section \<open>Doubles\<close>

text \<open>
  \<open>toDouble y\<close> is the double nearest to the real \<open>y\<close> (IEEE 754 binary64, ties to the
  even mantissa, subnormals included; the overflow to infinity beyond about \<open>1.8e308\<close> is
  left out). A seconds value that is not itself a double stands for the double nearest to
  it, as for a number literal or a JSON number.
\<close>

fun bitLength :: "nat \<Rightarrow> nat" where
  \<comment> \<open>the number of binary digits of \<open>n\<close>\<close>
  "bitLength n = (if n = 0 then 0 else Suc (bitLength (n div 2)))"

declare bitLength.simps [simp del]

definition binExponent :: "real \<Rightarrow> int" where
  \<comment> \<open>for \<open>y > 0\<close>, the \<open>e\<close> with \<open>2^e \<le> y < 2^(e + 1)\<close>\<close>
  "binExponent y =
     (if 1 \<le> y then int (bitLength (nat \<lfloor>y\<rfloor>)) - 1
      else - int (bitLength (nat (\<lceil>1 / y\<rceil> - 1))))"

definition pow2 :: "int \<Rightarrow> real" where
  "pow2 k = (if 0 \<le> k then 2 ^ nat k else 1 / 2 ^ nat (- k))"

definition roundHalfEven :: "real \<Rightarrow> int" where
  \<comment> \<open>the nearest integer, the even one of two equally near\<close>
  "roundHalfEven m =
     (let f = \<lfloor>m\<rfloor>; d = m - of_int f
      in if d < 1 / 2 then f else if 1 / 2 < d then f + 1 else if even f then f else f + 1)"

definition toDouble :: "real \<Rightarrow> real" where
  \<comment> \<open>53 bits of mantissa; the unit in the last place is \<open>2^(e - 52)\<close>, with \<open>e\<close> at least
      \<open>-1022\<close>\<close>
  "toDouble y =
     (if y = 0 then 0
      else
        let a = \<bar>y\<bar>;
            e = max (binExponent a) (- 1022);
            u = pow2 (e - 52)
        in sgn y * (of_int (roundHalfEven (a / u)) * u))"

section \<open>SubtitleWriter: timestamps\<close>

function padLoop :: "string \<Rightarrow> nat \<Rightarrow> string" where
  \<comment> \<open>\<open>while (s.length < size) s = '0' + s\<close>\<close>
  "padLoop s sz = (if length s < sz then padLoop (CHR ''0'' # s) sz else s)"
  by pat_completeness auto
termination
  by (relation "measure (\<lambda>(s, sz). sz - length s)") auto

declare padLoop.simps [simp del]

definition pad :: "int \<Rightarrow> nat \<Rightarrow> string" where
  \<comment> \<open>\<open>_pad(num, size)\<close>\<close>
  "pad num sz = padLoop (toString num) sz"

definition formatSRTTimestamp :: "real \<Rightarrow> string" where
  \<comment> \<open>\<open>_formatSRTTimestamp(seconds)\<close>: \<open>seconds * 1000\<close> is the double product;
      \<open>Math.floor(a / b)\<close> of integers with \<open>b > 0\<close> is \<open>a div b\<close>\<close>
  "formatSRTTimestamp seconds =
     (let totalMilliseconds = \<lfloor>toDouble (toDouble seconds * 1000)\<rfloor>;
          milliseconds = js_rem totalMilliseconds 1000;
          totalSeconds = totalMilliseconds div 1000;
          secs = js_rem totalSeconds 60;
          totalMinutes = totalSeconds div 60;
          mins = js_rem totalMinutes 60;
          hours = totalMinutes div 60
      in pad hours 2 @ '':'' @ pad mins 2 @ '':'' @ pad secs 2 @ '','' @ pad milliseconds 3)"

definition formatVTTTimestamp :: "real \<Rightarrow> string" where
  \<comment> \<open>\<open>_formatVTTTimestamp(seconds)\<close>\<close>
  "formatVTTTimestamp seconds =
     (let totalMilliseconds = \<lfloor>toDouble (toDouble seconds * 1000)\<rfloor>;
          milliseconds = js_rem totalMilliseconds 1000;
          totalSeconds = totalMilliseconds div 1000;
          secs = js_rem totalSeconds 60;
          totalMinutes = totalSeconds div 60;
          mins = js_rem totalMinutes 60;
          hours = totalMinutes div 60
      in pad hours 2 @ '':'' @ pad mins 2 @ '':'' @ pad secs 2 @ ''.'' @ pad milliseconds 3)"

section \<open>SubtitleWriter: line wrapping\<close>

fun wrapLoop :: "string list \<Rightarrow> nat \<Rightarrow> string list \<Rightarrow> string \<Rightarrow> string list \<times> string" where
  \<comment> \<open>the \<open>for (const word of words)\<close> loop of \<open>_splitTextIntoLines\<close>, on the state
      \<open>(lines, currentLine)\<close>; a non-empty string is truthy\<close>
  "wrapLoop [] maxLength lines currentLine = (lines, currentLine)"
| "wrapLoop (word # words) maxLength lines currentLine =
     (if length (js_trim (currentLine @ '' '' @ word)) > maxLength then
        (if currentLine \<noteq> [] then wrapLoop words maxLength (lines @ [js_trim currentLine]) word
         else wrapLoop words maxLength (lines @ [word]) [])
      else wrapLoop words maxLength lines
             (if currentLine \<noteq> [] then currentLine @ '' '' @ word else word))"

definition greedyLines :: "string list \<Rightarrow> nat \<Rightarrow> string list" where
  \<comment> \<open>\<open>lines\<close> after the loop and after \<open>if (currentLine) lines.push(currentLine.trim())\<close>\<close>
  "greedyLines words maxLength =
     (case wrapLoop words maxLength [] [] of
        (lines, currentLine) \<Rightarrow>
          if currentLine \<noteq> [] then lines @ [js_trim currentLine] else lines)"

definition splitTextIntoLines :: "string \<Rightarrow> nat \<Rightarrow> string list" where
  \<comment> \<open>\<open>_splitTextIntoLines(text, maxLength)\<close>; \<open>Math.ceil(n / 2)\<close> is \<open>(n + 1) div 2\<close>\<close>
  "splitTextIntoLines text maxLength =
     (if length text \<le> maxLength then [text]
      else
        let words = js_split text CHR '' '';
            lines = greedyLines words maxLength
        in if length lines > 2 then
             let halfLength = (length words + 1) div 2;
                 firstHalf = js_join (take halfLength words) '' '';
                 secondHalf = js_join (drop halfLength words) '' ''
             in [firstHalf, secondHalf]
           else lines)"

section \<open>SubtitleWriter: building a track\<close>

record segment =
  seg_id :: nat
  seg_start :: real
  seg_end :: real
  seg_text :: string
  seg_tokens :: "nat list option"
  seg_confidence :: "real option"

definition srtBlock :: "segment \<Rightarrow> nat \<Rightarrow> string" where
  \<comment> \<open>the callback of \<open>segments.map\<close> in \<open>_generateSRT\<close>\<close>
  "srtBlock sg index =
     (let sequenceNumber = index + 1;
          startTime = formatSRTTimestamp (seg_start sg);
          endTime = formatSRTTimestamp (seg_end sg);
          textLines = splitTextIntoLines (seg_text sg) 42
      in js_join ([toString (int sequenceNumber), startTime @ '' --> '' @ endTime]
                  @ textLines @ [[]]) [CHR 0x0A])"

fun srtBlocksFrom :: "nat \<Rightarrow> segment list \<Rightarrow> string list" where
  \<comment> \<open>\<open>segments.map((segment, index) => ...)\<close>, the index counted from the first argument\<close>
  "srtBlocksFrom index [] = []"
| "srtBlocksFrom index (sg # segments) = srtBlock sg index # srtBlocksFrom (Suc index) segments"

definition srtBlocks :: "segment list \<Rightarrow> string list" where
  "srtBlocks segments = srtBlocksFrom 0 segments"

definition generateSRT :: "segment list \<Rightarrow> string" where
  \<comment> \<open>\<open>_generateSRT(segments)\<close>\<close>
  "generateSRT segments = js_join (srtBlocks segments) [CHR 0x0A]"

section \<open>JavaScript numbers in shift-timing.js\<close>

text \<open>
  The shifter computes with whatever \<open>Number\<close> makes of a field, so its numbers include
  \<open>NaN\<close> and the infinities. Finite values are exact rationals; the sign of zero is not
  kept (it shows in none of the operations used here).
\<close>

datatype jsnum = NaN | PosInf | NegInf | Fin rat

datatype js_error = TypeError

fun js_add :: "jsnum \<Rightarrow> jsnum \<Rightarrow> jsnum" where
  "js_add NaN y = NaN"
| "js_add x NaN = NaN"
| "js_add (Fin a) (Fin b) = Fin (a + b)"
| "js_add (Fin a) y = y"
| "js_add x (Fin b) = x"
| "js_add x y = (if x = y then x else NaN)"

fun js_mul :: "jsnum \<Rightarrow> jsnum \<Rightarrow> jsnum" where
  "js_mul NaN y = NaN"
| "js_mul x NaN = NaN"
| "js_mul (Fin a) (Fin b) = Fin (a * b)"
| "js_mul (Fin a) y = (if a = 0 then NaN else if (0 < a) = (y = PosInf) then PosInf else NegInf)"
| "js_mul x (Fin b) = (if b = 0 then NaN else if (0 < b) = (x = PosInf) then PosInf else NegInf)"
| "js_mul x y = (if x = y then PosInf else NegInf)"

fun js_div :: "jsnum \<Rightarrow> jsnum \<Rightarrow> jsnum" where
  "js_div NaN y = NaN"
| "js_div x NaN = NaN"
| "js_div (Fin a) (Fin b) =
     (if b = 0 then (if a = 0 then NaN else if 0 < a then PosInf else NegInf) else Fin (a / b))"
| "js_div (Fin a) y = Fin 0"
| "js_div x (Fin b) = (if (0 \<le> b) = (x = PosInf) then PosInf else NegInf)"
| "js_div x y = NaN"

definition truncQuot :: "rat \<Rightarrow> int" where
  \<comment> \<open>a quotient rounded towards zero\<close>
  "truncQuot q = (if q < 0 then - \<lfloor>- q\<rfloor> else \<lfloor>q\<rfloor>)"

fun js_mod :: "jsnum \<Rightarrow> jsnum \<Rightarrow> jsnum" where
  \<comment> \<open>\<open>x % y\<close>: truncated remainder, the sign of the dividend\<close>
  "js_mod (Fin a) (Fin b) = (if b = 0 then NaN else Fin (a - b * of_int (truncQuot (a / b))))"
| "js_mod (Fin a) PosInf = Fin a"
| "js_mod (Fin a) NegInf = Fin a"
| "js_mod x y = NaN"

fun js_floor :: "jsnum \<Rightarrow> jsnum" where
  "js_floor (Fin a) = Fin (of_int \<lfloor>a\<rfloor>)"
| "js_floor x = x"

fun js_less :: "jsnum \<Rightarrow> jsnum \<Rightarrow> bool" where
  "js_less NaN y = False"
| "js_less x NaN = False"
| "js_less (Fin a) (Fin b) = (a < b)"
| "js_less x PosInf = (x \<noteq> PosInf)"
| "js_less NegInf y = (y \<noteq> NegInf)"
| "js_less x y = False"

subsection \<open>Number(text)\<close>

definition isDigit :: "char \<Rightarrow> bool" where
  "isDigit c = (c \<in> set ''0123456789'')"

definition indexOf :: "char \<Rightarrow> string \<Rightarrow> nat" where
  "indexOf c cs = length (takeWhile (\<lambda>d. d \<noteq> c) cs)"

definition radixValue :: "nat \<Rightarrow> string \<Rightarrow> string \<Rightarrow> nat" where
  \<comment> \<open>the value of a numeral whose digits are read off the alphabet \<open>alphabet\<close>\<close>
  "radixValue base alphabet ds = foldl (\<lambda>a c. base * a + indexOf c alphabet) 0 ds"

definition decValue :: "string \<Rightarrow> nat" where
  "decValue ds = radixValue 10 ''0123456789'' ds"

definition lowerHex :: "char \<Rightarrow> char" where
  "lowerHex c = (if c \<in> set ''ABCDEF'' then ''abcdef'' ! indexOf c ''ABCDEF'' else c)"

definition nonDecimalLiteral :: "string \<Rightarrow> nat option" where
  \<comment> \<open>\<open>0x\<close>, \<open>0o\<close> and \<open>0b\<close> literals (no sign allowed)\<close>
  "nonDecimalLiteral t =
     (case t of
        z # x # r \<Rightarrow>
          if z = CHR ''0'' \<and> r \<noteq> [] then
            (if (x = CHR ''x'' \<or> x = CHR ''X'') \<and> list_all (\<lambda>c. lowerHex c \<in> set ''0123456789abcdef'') r
               then Some (radixValue 16 ''0123456789abcdef'' (map lowerHex r))
             else if (x = CHR ''o'' \<or> x = CHR ''O'') \<and> list_all (\<lambda>c. c \<in> set ''01234567'') r
               then Some (radixValue 8 ''01234567'' r)
             else if (x = CHR ''b'' \<or> x = CHR ''B'') \<and> list_all (\<lambda>c. c \<in> set ''01'') r
               then Some (radixValue 2 ''01'' r)
             else None)
          else None
      | _ \<Rightarrow> None)"

definition exponentPart :: "string \<Rightarrow> int option" where
  \<comment> \<open>the optional \<open>e\<close> part that ends a decimal literal\<close>
  "exponentPart r =
     (case r of
        [] \<Rightarrow> Some 0
      | c # r1 \<Rightarrow>
          if c = CHR ''e'' \<or> c = CHR ''E'' then
            (let neg = (r1 \<noteq> [] \<and> hd r1 = CHR ''-'');
                 ds = (if r1 \<noteq> [] \<and> (hd r1 = CHR ''-'' \<or> hd r1 = CHR ''+'') then tl r1 else r1)
             in if ds \<noteq> [] \<and> list_all isDigit ds
                then Some (if neg then - int (decValue ds) else int (decValue ds))
                else None)
          else None)"

definition decimalLiteral :: "string \<Rightarrow> rat option" where
  \<comment> \<open>an unsigned decimal literal: digits, an optional fraction, an optional exponent\<close>
  "decimalLiteral u =
     (let ip = takeWhile isDigit u;
          r1 = dropWhile isDigit u;
          hasDot = (r1 \<noteq> [] \<and> hd r1 = CHR ''.'');
          fp = (if hasDot then takeWhile isDigit (tl r1) else []);
          r2 = (if hasDot then dropWhile isDigit (tl r1) else r1)
      in if ip = [] \<and> fp = [] then None
         else case exponentPart r2 of
                None \<Rightarrow> None
              | Some e \<Rightarrow>
                  let m = of_nat (decValue ip) + of_nat (decValue fp) / 10 ^ length fp
                  in Some (if 0 \<le> e then m * 10 ^ nat e else m / 10 ^ nat (- e)))"

definition Number_js :: "string \<Rightarrow> jsnum" where
  \<comment> \<open>\<open>Number(s)\<close> of a string: white space trimmed, the empty string is 0, then a literal
      or \<open>NaN\<close>\<close>
  "Number_js s =
     (let t = js_trim s in
      if t = [] then Fin 0
      else case nonDecimalLiteral t of
             Some n \<Rightarrow> Fin (of_nat n)
           | None \<Rightarrow>
               let neg = (hd t = CHR ''-'');
                   u = (if hd t = CHR ''-'' \<or> hd t = CHR ''+'' then tl t else t)
               in if u = ''Infinity'' then (if neg then NegInf else PosInf)
                  else (case decimalLiteral u of
                          None \<Rightarrow> NaN
                        | Some q \<Rightarrow> Fin (if neg then - q else q)))"

fun Number_opt :: "string option \<Rightarrow> jsnum" where
  \<comment> \<open>\<open>Number(x)\<close> where \<open>x\<close> may be \<open>undefined\<close>\<close>
  "Number_opt None = NaN"
| "Number_opt (Some s) = Number_js s"

subsection \<open>String(number)\<close>

function stripZeros :: "nat \<Rightarrow> int \<Rightarrow> nat \<times> int" where
  \<comment> \<open>\<open>s * 10^t\<close> with the trailing zeros of \<open>s\<close> moved into \<open>t\<close>\<close>
  "stripZeros s t = (if s \<noteq> 0 \<and> s mod 10 = 0 then stripZeros (s div 10) (t + 1) else (s, t))"
  by pat_completeness auto
termination
  by (relation "measure (\<lambda>(s, t). s)") auto

declare stripZeros.simps [simp del]

function multiplicity :: "nat \<Rightarrow> nat \<Rightarrow> nat" where
  \<comment> \<open>how often \<open>p\<close> divides \<open>q\<close>\<close>
  "multiplicity p q =
     (if 1 < p \<and> q \<noteq> 0 \<and> p dvd q then Suc (multiplicity p (q div p)) else 0)"
  by pat_completeness auto
termination
  by (relation "measure (\<lambda>(p, q). q)") auto

declare multiplicity.simps [simp del]

definition decExponent :: "rat \<Rightarrow> nat" where
  \<comment> \<open>the least \<open>j\<close> with \<open>r * 10^j\<close> an integer, for a decimal fraction \<open>r\<close>\<close>
  "decExponent r =
     (let q = nat (snd (quotient_of r)) in max (multiplicity 2 q) (multiplicity 5 q))"

definition positiveToString :: "rat \<Rightarrow> string" where
  \<comment> \<open>Number::toString of a positive decimal fraction: digits \<open>s\<close>, their count \<open>k\<close> and the
      position \<open>n\<close> of the decimal point, with \<open>r = s * 10^(n - k)\<close>\<close>
  "positiveToString r =
     (let j = decExponent r;
          (s, t) = stripZeros (nat \<lfloor>r * 10 ^ j\<rfloor>) (- int j);
          ds = digits s;
          k = int (length ds);
          n = t + k
      in if k \<le> n \<and> n \<le> 21 then ds @ replicate (nat (n - k)) CHR ''0''
         else if 0 < n \<and> n \<le> 21 then take (nat n) ds @ ''.'' @ drop (nat n) ds
         else if - 6 < n \<and> n \<le> 0 then ''0.'' @ replicate (nat (- n)) CHR ''0'' @ ds
         else
           let e = n - 1;
               es = (if e < 0 then CHR ''-'' else CHR ''+'') # digits (nat \<bar>e\<bar>)
           in if k = 1 then ds @ ''e'' @ es else hd ds # ''.'' @ tl ds @ ''e'' @ es)"

definition String_js :: "jsnum \<Rightarrow> string" where
  \<comment> \<open>\<open>String(num)\<close>; an integer below \<open>10^21\<close> prints in plain decimal\<close>
  "String_js x =
     (case x of
        NaN \<Rightarrow> ''NaN''
      | PosInf \<Rightarrow> ''Infinity''
      | NegInf \<Rightarrow> ''-Infinity''
      | Fin r \<Rightarrow>
          if of_int \<lfloor>r\<rfloor> = r \<and> \<bar>r\<bar> < 10 ^ 21 then toString \<lfloor>r\<rfloor>
          else if r < 0 then CHR ''-'' # positiveToString (- r)
          else positiveToString r)"

definition padStart :: "string \<Rightarrow> nat \<Rightarrow> char \<Rightarrow> string" where
  \<comment> \<open>\<open>s.padStart(len, c)\<close>\<close>
  "padStart s len c = replicate (len - length s) c @ s"

section \<open>shift-timing.js\<close>

definition nth_opt :: "'a list \<Rightarrow> nat \<Rightarrow> 'a option" where
  \<comment> \<open>array destructuring: a missing position is \<open>undefined\<close>\<close>
  "nth_opt xs i = (if i < length xs then Some (xs ! i) else None)"

definition nth_num :: "jsnum list \<Rightarrow> nat \<Rightarrow> jsnum" where
  \<comment> \<open>a destructured number used in arithmetic: \<open>undefined\<close> counts as \<open>NaN\<close>\<close>
  "nth_num xs i = (if i < length xs then xs ! i else NaN)"

fun parseTimestamp :: "string option \<Rightarrow> js_error + jsnum" where
  \<comment> \<open>\<open>parseTimestamp(timestamp)\<close>; \<open>undefined.split\<close> throws a TypeError\<close>
  "parseTimestamp None = Inl TypeError"
| "parseTimestamp (Some timestamp) =
     (let parts = js_split timestamp CHR '','';
          time = hd parts;
          ms = nth_opt parts 1;
          nums = map Number_js (js_split time CHR '':'');
          hours = nth_num nums 0;
          minutes = nth_num nums 1;
          seconds = nth_num nums 2
      in Inr (js_add
                (js_mul (js_add (js_add (js_mul hours (Fin 3600)) (js_mul minutes (Fin 60))) seconds)
                        (Fin 1000))
                (Number_opt ms)))"

definition formatTimestamp :: "jsnum \<Rightarrow> string" where
  \<comment> \<open>\<open>formatTimestamp(totalMs)\<close>\<close>
  "formatTimestamp totalMs0 =
     (let totalMs = (if js_less totalMs0 (Fin 0) then Fin 0 else totalMs0);
          ms = js_mod totalMs (Fin 1000);
          totalSeconds = js_floor (js_div totalMs (Fin 1000));
          seconds = js_mod totalSeconds (Fin 60);
          totalMinutes = js_floor (js_div totalSeconds (Fin 60));
          minutes = js_mod totalMinutes (Fin 60);
          hours = js_floor (js_div totalMinutes (Fin 60));
          pad = (\<lambda>num len. padStart (String_js num) len CHR ''0'')
      in pad hours 2 @ '':'' @ pad minutes 2 @ '':'' @ pad seconds 2 @ '','' @ pad ms 3)"

fun shiftLoop :: "string list \<Rightarrow> jsnum \<Rightarrow> string list \<Rightarrow> js_error + string list" where
  \<comment> \<open>the \<open>for (const line of lines)\<close> loop of \<open>shiftSubtitles\<close>, on \<open>shiftedLines\<close>\<close>
  "shiftLoop [] offsetMs shiftedLines = Inr shiftedLines"
| "shiftLoop (line # lines) offsetMs shiftedLines =
     (if js_includes line ''-->'' then
        (let toks = js_split line CHR '' '';
             start = nth_opt toks 0;
             end_tok = nth_opt toks 2
         in case parseTimestamp start of
              Inl e \<Rightarrow> Inl e
            | Inr startMs \<Rightarrow>
                (case parseTimestamp end_tok of
                   Inl e \<Rightarrow> Inl e
                 | Inr endMs \<Rightarrow>
                     let newStart = formatTimestamp (js_add startMs offsetMs);
                         newEnd = formatTimestamp (js_add endMs offsetMs)
                     in shiftLoop lines offsetMs (shiftedLines @ [newStart @ '' --> '' @ newEnd])))
      else shiftLoop lines offsetMs (shiftedLines @ [line]))"

definition shiftSubtitles :: "string \<Rightarrow> jsnum \<Rightarrow> js_error + string" where
  \<comment> \<open>\<open>shiftSubtitles(content, offsetMs)\<close>\<close>
  "shiftSubtitles content offsetMs =
     (case shiftLoop (js_split content CHR 0x0A) offsetMs [] of
        Inl e \<Rightarrow> Inl e
      | Inr shiftedLines \<Rightarrow> Inr (js_join shiftedLines [CHR 0x0A]))"

definition offsetMsOf :: "real \<Rightarrow> jsnum" where
  \<comment> \<open>\<open>Math.round(offsetSeconds * 1000)\<close> in \<open>main\<close>, on the double product;
      \<open>Math.round\<close> rounds a half upwards\<close>
  "offsetMsOf offsetSeconds =
     Fin (of_int \<lfloor>toDouble (toDouble offsetSeconds * 1000) + 1 / 2\<rfloor>)"

section \<open>Translator: reading a translation response\<close>

text \<open>
  The response text of the translation service is an input of the model. In a segment,
  \<open>None\<close> stands for a field that is \<open>undefined\<close> or \<open>null\<close>.
\<close>

definition isLineTerminator :: "char \<Rightarrow> bool" where
  \<comment> \<open>what \<open>.\<close> does not match\<close>
  "isLineTerminator c = (c = CHR 0x0A \<or> c = CHR 0x0D)"

definition matchLine :: "string \<Rightarrow> (string \<times> string) option" where
  \<comment> \<open>\<open>line.match(/^\[(\d+)\]\s*(.+)$/)\<close>: the two groups. \<open>\s*\<close> takes all the white
      space it can and gives one character back when nothing else is left for \<open>.+\<close>\<close>
  "matchLine line =
     (case line of
        [] \<Rightarrow> None
      | c # r \<Rightarrow>
          if c \<noteq> CHR ''['' then None
          else
            let ds = takeWhile isDigit r;
                r1 = dropWhile isDigit r
            in if ds = [] \<or> r1 = [] \<or> hd r1 \<noteq> CHR '']'' then None
               else
                 let rest = tl r1;
                     body = dropWhile isWhiteSpace rest
                 in if body \<noteq> [] then
                      (if list_all (\<lambda>c. \<not> isLineTerminator c) body then Some (ds, body) else None)
                    else if rest \<noteq> [] \<and> \<not> isLineTerminator (last rest) then Some (ds, [last rest])
                    else None)"

definition translatedSegment :: "segment \<Rightarrow> string \<Rightarrow> segment" where
  \<comment> \<open>the object pushed for a matched line; \<open>x || []\<close> and \<open>x || null\<close> replace a falsy field\<close>
  "translatedSegment sg txt =
     \<lparr> seg_id = seg_id sg,
       seg_start = seg_start sg,
       seg_end = seg_end sg,
       seg_text = txt,
       seg_tokens = (case seg_tokens sg of None \<Rightarrow> Some [] | Some ts \<Rightarrow> Some ts),
       seg_confidence = (case seg_confidence sg of
                           None \<Rightarrow> None
                         | Some c \<Rightarrow> if c = 0 then None else Some c) \<rparr>"

fun parseLoop :: "string list \<Rightarrow> segment list \<Rightarrow> segment list \<Rightarrow> segment list" where
  \<comment> \<open>the \<open>for (const line of translatedLines)\<close> loop, on \<open>translatedSegments\<close>;
      \<open>segments[index]\<close> is truthy when the index is in range\<close>
  "parseLoop [] segments translatedSegments = translatedSegments"
| "parseLoop (line # lines) segments translatedSegments =
     (case matchLine line of
        None \<Rightarrow> parseLoop lines segments translatedSegments
      | Some (g1, g2) \<Rightarrow>
          let index = decValue g1;
              txt = js_trim g2
          in if index < length segments
             then parseLoop lines segments
                    (translatedSegments @ [translatedSegment (segments ! index) txt])
             else parseLoop lines segments translatedSegments)"

definition parsedSegments :: "segment list \<Rightarrow> string \<Rightarrow> segment list" where
  \<comment> \<open>\<open>translatedSegments\<close> after the loop, for the response text \<open>content\<close>\<close>
  "parsedSegments segments content =
     (let translatedText = js_trim content;
          translatedLines = filter (\<lambda>line. js_trim line \<noteq> []) (js_split translatedText CHR 0x0A)
      in parseLoop translatedLines segments [])"

function fillLoop :: "nat \<Rightarrow> segment list \<Rightarrow> segment list \<Rightarrow> segment list \<Rightarrow> segment list" where
  \<comment> \<open>\<open>for (let i = 0; i < segments.length; i++)
        finalSegments.push(translatedSegments[i] || { ...segments[i] })\<close>\<close>
  "fillLoop i segments translatedSegments finalSegments =
     (if i < length segments
      then fillLoop (Suc i) segments translatedSegments
             (finalSegments @ [if i < length translatedSegments then translatedSegments ! i
                               else segments ! i])
      else finalSegments)"
  by pat_completeness auto
termination
  by (relation "measure (\<lambda>(i, segments, translatedSegments, finalSegments). length segments - i)")
     auto

declare fillLoop.simps [simp del]

definition translateAllSegments :: "segment list \<Rightarrow> string \<Rightarrow> segment list" where
  \<comment> \<open>\<open>_translateAllSegments\<close> from the response on: parse, then the fallback\<close>
  "translateAllSegments segments content =
     (let translatedSegments = parsedSegments segments content
      in if length translatedSegments \<noteq> length segments
         then fillLoop 0 segments translatedSegments []
         else translatedSegments)"

section \<open>Example data\<close>

definition demoSegment :: segment where
  "demoSegment = \<lparr> seg_id = 1, seg_start = 1, seg_end = 4, seg_text = ''Hello world'',
      seg_tokens = None, seg_confidence = None \<rparr>"

definition demoSegment2 :: segment where
  "demoSegment2 = \<lparr> seg_id = 2, seg_start = 5, seg_end = 6, seg_text = ''Goodbye'',
      seg_tokens = Some [], seg_confidence = None \<rparr>"

section \<open>Doubles\<close>

lemma bitLength_lower: "0 < n \<Longrightarrow> 2 ^ (bitLength n - 1) \<le> n"
proof (induction n rule: bitLength.induct)
  case (1 n)
  show ?case
  proof (cases "n div 2 = 0")
    case True
    with "1.prems" have "bitLength n = 1"
      by (simp add: bitLength.simps [of n] bitLength.simps [of 0])
    with "1.prems" show ?thesis by simp
  next
    case False
    with 1 have ih: "2 ^ (bitLength (n div 2) - 1) \<le> n div 2" by simp
    from False have "0 < bitLength (n div 2)" by (simp add: bitLength.simps [of "n div 2"])
    with "1.prems" have "bitLength n - 1 = Suc (bitLength (n div 2) - 1)"
      by (simp add: bitLength.simps [of n])
    then have "(2::nat) ^ (bitLength n - 1) = 2 * 2 ^ (bitLength (n div 2) - 1)" by simp
    also from ih have "\<dots> \<le> 2 * (n div 2)" by simp
    also have "\<dots> \<le> n" by simp
    finally show ?thesis .
  qed
qed

lemma bitLength_pos: "0 < n \<Longrightarrow> 0 < bitLength n"
  by (simp add: bitLength.simps [of n])

lemma pow2_pos: "0 < pow2 k"
  by (simp add: pow2_def)

lemma roundHalfEven_of_int: "roundHalfEven (of_int k) = k"
  by (simp add: roundHalfEven_def)

lemma roundHalfEven_nonneg: "0 \<le> m \<Longrightarrow> 0 \<le> roundHalfEven m"
  by (simp add: roundHalfEven_def Let_def)

lemma toDouble_nonneg: "0 \<le> y \<Longrightarrow> 0 \<le> toDouble y"
proof (cases "y = 0")
  case True
  then show ?thesis by (simp add: toDouble_def)
next
  case False
  assume "0 \<le> y"
  with False have y: "0 < y" by simp
  let ?u = "pow2 (max (binExponent \<bar>y\<bar>) (- 1022) - 52)"
  from y pow2_pos [of "max (binExponent \<bar>y\<bar>) (- 1022) - 52"] have "0 \<le> \<bar>y\<bar> / ?u" by simp
  then have "0 \<le> roundHalfEven (\<bar>y\<bar> / ?u)" by (rule roundHalfEven_nonneg)
  with y pow2_pos [of "max (binExponent \<bar>y\<bar>) (- 1022) - 52"] False show ?thesis
    by (simp add: toDouble_def Let_def)
qed

lemma toDouble_eval:
  assumes "y \<noteq> 0" and "binExponent \<bar>y\<bar> = e" and "- 1022 \<le> e"
    and "roundHalfEven (\<bar>y\<bar> / pow2 (e - 52)) = r"
  shows "toDouble y = sgn y * (of_int r * pow2 (e - 52))"
proof -
  from assms(3) have m: "max e (- 1022) = e" by simp
  from assms(1) have "toDouble y =
      sgn y * (of_int (roundHalfEven (\<bar>y\<bar> / pow2 (max (binExponent \<bar>y\<bar>) (- 1022) - 52)))
               * pow2 (max (binExponent \<bar>y\<bar>) (- 1022) - 52))"
    by (simp only: toDouble_def Let_def if_False)
  then show ?thesis by (simp only: assms(2) m assms(4))
qed

lemma toDouble_of_int:
  assumes "\<bar>n\<bar> < 2 ^ 53"
  shows "toDouble (of_int n) = of_int n"
proof (cases "n = 0")
  case True
  then show ?thesis by (simp add: toDouble_def)
next
  case False
  define a where "a = nat \<bar>n\<bar>"
  from False have a: "0 < a" and an: "int a = \<bar>n\<bar>" by (simp_all add: a_def)
  define b where "b = bitLength a"
  from a have b: "0 < b" by (simp add: b_def bitLength_pos)
  from a have "2 ^ (b - 1) \<le> a" unfolding b_def by (rule bitLength_lower)
  also from assms an have "a < 2 ^ 53" by (simp add: a_def nat_less_iff)
  finally have p: "(2::nat) ^ (b - 1) < 2 ^ 53" .
  have b53: "b - 1 < 53"
  proof (rule power_less_imp_less_exp)
    show "(1::nat) < 2" by simp
    show "(2::nat) ^ (b - 1) < 2 ^ 53" by (rule p)
  qed
  have ra: "\<bar>real_of_int n\<bar> = real a" using an by (simp add: a_def)
  from a have "1 \<le> real a" by simp
  then have eb: "binExponent \<bar>real_of_int n\<bar> = int b - 1"
    by (simp add: binExponent_def ra b_def)
  define e where "e = int b - 1"
  from eb have e: "binExponent \<bar>real_of_int n\<bar> = e" by (simp only: e_def)
  from b have lo: "- 1022 \<le> e" by (simp add: e_def)
  from b b53 have u: "pow2 (e - 52) = 1 / 2 ^ (53 - b)"
    by (simp add: pow2_def e_def nat_diff_distrib)
  have "\<bar>real_of_int n\<bar> / pow2 (e - 52) = of_int (int a * 2 ^ (53 - b))"
    by (simp only: u ra) simp
  then have r: "roundHalfEven (\<bar>real_of_int n\<bar> / pow2 (e - 52)) = int a * 2 ^ (53 - b)"
    by (simp only: roundHalfEven_of_int)
  from False have nz: "real_of_int n \<noteq> 0" by simp
  have "toDouble (of_int n) = sgn (real_of_int n) * (of_int (int a * 2 ^ (53 - b)) * pow2 (e - 52))"
    using nz e lo r by (rule toDouble_eval)
  also have "\<dots> = sgn (real_of_int n) * real a" by (simp only: u) simp
  also have "\<dots> = sgn (real_of_int n) * \<bar>real_of_int n\<bar>" by (simp only: ra)
  also have "\<dots> = of_int n" by (rule sgn_mult_abs)
  finally show ?thesis .
qed

lemma millis_of_int:
  assumes "\<bar>n\<bar> * 1000 < 2 ^ 53"
  shows "toDouble (toDouble (of_int n) * 1000) = of_int (n * 1000)"
proof -
  from assms have "\<bar>n\<bar> < 2 ^ 53" by simp
  then have "toDouble (of_int n) = of_int n" by (rule toDouble_of_int)
  then have "toDouble (toDouble (of_int n) * 1000) = toDouble (of_int (n * 1000))" by simp
  also from assms have "\<dots> = of_int (n * 1000)"
    by (intro toDouble_of_int) (simp add: abs_mult)
  finally show ?thesis .
qed

lemma toDouble_0_29: "toDouble (toDouble 0.29 * 1000) = 290"
proof -
  have e1: "binExponent \<bar>0.29\<bar> = - 2"
    by (simp add: binExponent_def bitLength.simps)
  have r1: "roundHalfEven (\<bar>0.29\<bar> / pow2 (- 2 - 52)) = 5224175567749775"
    by (simp add: pow2_def roundHalfEven_def)
  have "toDouble 0.29 = sgn 0.29 * (of_int 5224175567749775 * pow2 (- 2 - 52))"
    by (rule toDouble_eval [OF _ e1 _ r1]) simp_all
  then have d1: "toDouble 0.29 = 5224175567749775 / 2 ^ 54"
    by (simp add: pow2_def)
  have e2: "binExponent \<bar>5224175567749775 / 2 ^ 54 * 1000\<bar> = 8"
    by (simp add: binExponent_def bitLength.simps)
  have r2: "roundHalfEven (\<bar>5224175567749775 / 2 ^ 54 * 1000\<bar> / pow2 (8 - 52))
              = 5101733952880640"
    by (simp add: pow2_def roundHalfEven_def)
  have "toDouble (5224175567749775 / 2 ^ 54 * 1000)
          = sgn (5224175567749775 / 2 ^ 54 * 1000) * (of_int 5101733952880640 * pow2 (8 - 52))"
    by (rule toDouble_eval [OF _ e2 _ r2]) simp_all
  then have "toDouble (5224175567749775 / 2 ^ 54 * 1000) = 290"
    by (simp add: pow2_def)
  then show ?thesis by (simp only: d1)
qed

lemma toDouble_1_001: "toDouble (toDouble 1.001 * 1000) = 8804889115230207 / 2 ^ 43"
proof -
  have e1: "binExponent \<bar>1.001\<bar> = 0"
    by (simp add: binExponent_def bitLength.simps)
  have r1: "roundHalfEven (\<bar>1.001\<bar> / pow2 (0 - 52)) = 4508103226997866"
    by (simp add: pow2_def roundHalfEven_def)
  have "toDouble 1.001 = sgn 1.001 * (of_int 4508103226997866 * pow2 (0 - 52))"
    by (rule toDouble_eval [OF _ e1 _ r1]) simp_all
  then have d1: "toDouble 1.001 = 4508103226997866 / 2 ^ 52"
    by (simp add: pow2_def)
  have e2: "binExponent \<bar>4508103226997866 / 2 ^ 52 * 1000\<bar> = 9"
    by (simp add: binExponent_def bitLength.simps)
  have r2: "roundHalfEven (\<bar>4508103226997866 / 2 ^ 52 * 1000\<bar> / pow2 (9 - 52))
              = 8804889115230207"
    by (simp add: pow2_def roundHalfEven_def)
  have "toDouble (4508103226997866 / 2 ^ 52 * 1000)
          = sgn (4508103226997866 / 2 ^ 52 * 1000) * (of_int 8804889115230207 * pow2 (9 - 52))"
    by (rule toDouble_eval [OF _ e2 _ r2]) simp_all
  then have "toDouble (4508103226997866 / 2 ^ 52 * 1000) = 8804889115230207 / 2 ^ 43"
    by (simp add: pow2_def)
  then show ?thesis by (simp only: d1)
qed

lemma offsetMsOf_3: "offsetMsOf 3 = Fin 3000"
  using millis_of_int [of 3] by (simp add: offsetMsOf_def)

lemma offsetMsOf_0: "offsetMsOf 0 = Fin 0"
  by (simp add: offsetMsOf_def toDouble_def)

section \<open>Strings\<close>

lemma js_split_nonempty: "js_split s c \<noteq> []"
  by (induction s) (auto split: list.splits)

lemma js_split_length: "0 < length (js_split s c)"
  using js_split_nonempty by blast

lemma js_split_no_sep: "p \<in> set (js_split s c) \<Longrightarrow> c \<notin> set p"
proof (induction s arbitrary: p)
  case Nil
  then show ?case by simp
next
  case (Cons d s)
  then show ?case
    by (cases "js_split s c") (auto split: if_splits)
qed

lemma js_split_without_sep: "c \<notin> set x \<Longrightarrow> js_split x c = [x]"
  by (induction x) auto

lemma js_split_append_sep:
  "c \<notin> set x \<Longrightarrow> js_split (x @ c # rest) c = x # js_split rest c"
  by (induction x) auto

lemma js_split_join:
  "ls \<noteq> [] \<Longrightarrow> \<forall>l \<in> set ls. c \<notin> set l \<Longrightarrow> js_split (js_join ls [c]) c = ls"
proof (induction ls "[c]" rule: js_join.induct)
  case 1
  then show ?case by simp
next
  case (2 x)
  then show ?case by (simp add: js_split_without_sep)
next
  case (3 x y ys)
  then show ?case by (simp add: js_split_append_sep)
qed

lemma js_join_split: "js_join (js_split t c) [c] = t"
proof (induction t)
  case Nil
  show ?case by simp
next
  case (Cons d t)
  obtain p ps where ps: "js_split t c = p # ps"
    using js_split_nonempty [of t c] by (cases "js_split t c") simp_all
  with Cons show ?case by (cases ps) auto
qed

lemma js_join_merge:
  "js_join (A @ x # y # B) '' '' = js_join (A @ (x @ '' '' @ y) # B) '' ''"
proof (induction A)
  case Nil
  show ?case by (cases B) simp_all
next
  case (Cons a A)
  then show ?case by (cases A) simp_all
qed

lemma js_join_append:
  "xs \<noteq> [] \<Longrightarrow> ys \<noteq> [] \<Longrightarrow> js_join (xs @ ys) sep = js_join xs sep @ sep @ js_join ys sep"
proof (induction xs sep rule: js_join.induct)
  case (1 sep)
  then show ?case by simp
next
  case (2 x sep)
  then show ?case by (cases ys) simp_all
next
  case (3 x y zs sep)
  then show ?case by simp
qed

lemma js_trim_clean:
  assumes "s = [] \<or> (\<not> isWhiteSpace (hd s) \<and> \<not> isWhiteSpace (last s))"
  shows "js_trim s = s"
proof (cases "s = []")
  case True
  then show ?thesis by (simp add: js_trim_def)
next
  case False
  with assms have h: "\<not> isWhiteSpace (hd s)" and l: "\<not> isWhiteSpace (last s)" by simp_all
  from False h have a: "dropWhile isWhiteSpace s = s"
    by (cases s) simp_all
  from False l have b: "dropWhile isWhiteSpace (rev s) = rev s"
    by (cases "rev s") (simp_all add: last_rev [symmetric] hd_rev)
  show ?thesis by (simp add: js_trim_def a b)
qed

lemma dropWhile_length_le: "length (dropWhile P xs) \<le> length xs"
  by (induction xs) simp_all

lemma js_trim_length: "length (js_trim s) \<le> length s"
proof -
  have "length (js_trim s) \<le> length (dropWhile isWhiteSpace s)"
    using dropWhile_length_le [of isWhiteSpace "rev (dropWhile isWhiteSpace s)"]
    by (simp add: js_trim_def)
  also have "\<dots> \<le> length s" by (rule dropWhile_length_le)
  finally show ?thesis .
qed

lemma js_trim_space_length: "length (js_trim (CHR '' '' # w)) \<le> length w"
proof -
  have "dropWhile isWhiteSpace (CHR '' '' # w) = dropWhile isWhiteSpace w"
    by (simp add: isWhiteSpace_def)
  then have "js_trim (CHR '' '' # w) = js_trim w" by (simp add: js_trim_def)
  then show ?thesis by (simp add: js_trim_length)
qed

lemma js_trim_spaces: "js_trim (replicate n CHR '' '') = []"
proof -
  have "dropWhile isWhiteSpace (replicate n CHR '' '') = []"
    by (simp add: isWhiteSpace_def)
  then show ?thesis by (simp add: js_trim_def)
qed

lemma js_split_spaces: "js_split (replicate n CHR '' '') CHR '' '' = replicate (Suc n) []"
  by (induction n) simp_all

section \<open>Digits and padding\<close>

lemma digit_in_alphabet: "digit d \<in> set ''0123456789''"
proof -
  have "d mod 10 < length ''0123456789''" by simp
  then have "''0123456789'' ! (d mod 10) \<in> set ''0123456789''" by (rule nth_mem)
  then show ?thesis by (simp only: digit_def)
qed

lemma isDigit_digit: "isDigit (digit d)"
  using digit_in_alphabet by (simp only: isDigit_def)

lemma digits_all_digit: "list_all isDigit (digits n)"
proof (induction n rule: digits.induct)
  case (1 n)
  show ?case
  proof (cases "n < 10")
    case True
    then show ?thesis by (subst digits.simps) (simp add: isDigit_digit)
  next
    case False
    with 1 show ?thesis by (subst digits.simps) (simp add: isDigit_digit)
  qed
qed

lemma digits_nonempty: "digits n \<noteq> []"
  by (subst digits.simps) simp

lemma padLoop_eq: "padLoop s sz = replicate (sz - length s) CHR ''0'' @ s"
proof (induction s sz rule: padLoop.induct)
  case (1 s sz)
  show ?case
  proof (cases "length s < sz")
    case True
    then have "sz - length s = Suc (sz - Suc (length s))" by simp
    with True 1 show ?thesis
      by (subst padLoop.simps) (simp add: replicate_app_Cons_same)
  next
    case False
    then show ?thesis by (subst padLoop.simps) simp
  qed
qed

lemma isDigit_not_sep:
  "isDigit c \<Longrightarrow> c \<noteq> CHR '','' \<and> c \<noteq> CHR ''.'' \<and> c \<noteq> CHR '':'' \<and> c \<noteq> CHR 0x0A \<and> c \<noteq> CHR ''-''"
  unfolding isDigit_def by fastforce

lemma isDigit_zero: "isDigit CHR ''0''"
  by (simp add: isDigit_def)

lemma isDigit_not_LF: "isDigit c \<Longrightarrow> c \<noteq> CHR 0x0A"
  using isDigit_not_sep by blast

lemma isDigit_not_space: "isDigit c \<Longrightarrow> \<not> isWhiteSpace c"
  unfolding isDigit_def isWhiteSpace_def by fastforce

lemma isDigit_not_letter:
  "isDigit c \<Longrightarrow> c \<noteq> CHR ''x'' \<and> c \<noteq> CHR ''X'' \<and> c \<noteq> CHR ''o'' \<and> c \<noteq> CHR ''O''
     \<and> c \<noteq> CHR ''b'' \<and> c \<noteq> CHR ''B'' \<and> c \<noteq> CHR ''+'' \<and> c \<noteq> CHR ''I''"
  unfolding isDigit_def by fastforce

lemma toString_chars: "c \<in> set (toString n) \<Longrightarrow> isDigit c \<or> c = CHR ''-''"
  using digits_all_digit [of "nat n"] digits_all_digit [of "nat (- n)"]
  by (cases "n < 0") (auto simp: toString_def list_all_iff)

lemma pad_chars: "c \<in> set (pad n sz) \<Longrightarrow> isDigit c \<or> c = CHR ''-''"
proof -
  assume "c \<in> set (pad n sz)"
  then have "c = CHR ''0'' \<or> c \<in> set (toString n)"
    by (auto simp: pad_def padLoop_eq)
  then show ?thesis using toString_chars isDigit_zero by blast
qed

lemma pad_no_sep: "CHR '','' \<notin> set (pad n sz)" "CHR ''.'' \<notin> set (pad n sz)"
  using pad_chars [of "CHR '',''" n sz] pad_chars [of "CHR ''.''" n sz] isDigit_not_sep
  by blast+

lemma indexOf_digit: "indexOf (digit d) ''0123456789'' = d mod 10"
proof -
  have "d mod 10 < 10" by simp
  then have "d mod 10 = 0 \<or> d mod 10 = 1 \<or> d mod 10 = 2 \<or> d mod 10 = 3 \<or> d mod 10 = 4
      \<or> d mod 10 = 5 \<or> d mod 10 = 6 \<or> d mod 10 = 7 \<or> d mod 10 = 8 \<or> d mod 10 = 9"
    by arith
  then show ?thesis
    by (elim disjE) (simp_all add: digit_def indexOf_def)
qed

lemma decValue_Nil: "decValue [] = 0"
  by (simp add: decValue_def radixValue_def)

lemma decValue_snoc: "decValue (ds @ [c]) = 10 * decValue ds + indexOf c ''0123456789''"
  by (simp add: decValue_def radixValue_def)

lemma decValue_single: "decValue [c] = indexOf c ''0123456789''"
  using decValue_snoc [of "[]" c] by (simp add: decValue_Nil)

lemma decValue_digits: "decValue (digits n) = n"
proof (induction n rule: digits.induct)
  case (1 n)
  show ?case
  proof (cases "n < 10")
    case True
    then show ?thesis
      by (subst digits.simps) (simp add: decValue_single indexOf_digit)
  next
    case False
    with 1 show ?thesis
      by (subst digits.simps) (simp add: decValue_snoc indexOf_digit)
  qed
qed

lemma decValue_zeros: "decValue (replicate k CHR ''0'') = 0"
proof (induction k)
  case 0
  show ?case by (simp add: decValue_Nil)
next
  case (Suc k)
  have z: "indexOf CHR ''0'' ''0123456789'' = 0" by (simp add: indexOf_def)
  have "replicate (Suc k) CHR ''0'' = replicate k CHR ''0'' @ ''0''"
    by (simp add: replicate_append_same)
  then have "decValue (replicate (Suc k) CHR ''0'') = 10 * decValue (replicate k CHR ''0'') + 0"
    by (simp only: decValue_snoc z)
  with Suc show ?case by simp
qed

lemma decValue_zeros_prefix: "decValue (replicate k CHR ''0'' @ ds) = decValue ds"
  using decValue_zeros [of k] by (simp add: decValue_def radixValue_def)

lemma js_rem_nonneg: "0 \<le> a \<Longrightarrow> 0 < b \<Longrightarrow> js_rem a b = a mod b"
  by (cases "a = 0") (simp_all add: js_rem_def)

lemma pad_nonneg:
  "0 \<le> n \<Longrightarrow> pad n k = replicate (k - length (digits (nat n))) CHR ''0'' @ digits (nat n)"
  by (simp add: pad_def padLoop_eq toString_def)

lemma pad_all_digits: "0 \<le> n \<Longrightarrow> list_all isDigit (pad n k)"
  using digits_all_digit [of "nat n"] by (auto simp: pad_nonneg isDigit_zero list_all_iff)

lemma pad_nonempty: "pad n k \<noteq> []"
  using digits_nonempty by (simp add: pad_def padLoop_eq toString_def)

section \<open>The timestamps of SubtitleWriter\<close>

text \<open>
  Claim C9. For every seconds value the period-separated and the comma-separated formatter
  return the same text apart from the one separator in front of the milliseconds: both
  are \<open>pre\<close>, the separator, \<open>suf\<close>, and neither \<open>pre\<close> nor \<open>suf\<close> holds a comma or a period.
\<close>

theorem formatVTT_differs_in_separator_only:
  "\<exists>pre suf. formatSRTTimestamp seconds = pre @ '','' @ suf
     \<and> formatVTTTimestamp seconds = pre @ ''.'' @ suf
     \<and> CHR '','' \<notin> set pre \<and> CHR ''.'' \<notin> set pre
     \<and> CHR '','' \<notin> set suf \<and> CHR ''.'' \<notin> set suf"
proof -
  define tm where "tm = \<lfloor>toDouble (toDouble seconds * 1000)\<rfloor>"
  define pre where "pre = pad (tm div 1000 div 60 div 60) 2 @ '':''
      @ pad (js_rem (tm div 1000 div 60) 60) 2 @ '':'' @ pad (js_rem (tm div 1000) 60) 2"
  define suf where "suf = pad (js_rem tm 1000) 3"
  have a: "formatSRTTimestamp seconds = pre @ '','' @ suf"
    by (simp add: formatSRTTimestamp_def Let_def pre_def suf_def tm_def)
  have b: "formatVTTTimestamp seconds = pre @ ''.'' @ suf"
    by (simp add: formatVTTTimestamp_def Let_def pre_def suf_def tm_def)
  have c: "CHR '','' \<notin> set pre \<and> CHR ''.'' \<notin> set pre"
    by (simp add: pre_def pad_no_sep)
  have d: "CHR '','' \<notin> set suf \<and> CHR ''.'' \<notin> set suf"
    by (simp add: suf_def pad_no_sep)
  from a b c d show ?thesis by blast
qed

text \<open>
  Claim C1. The claim asks that a negative seconds value is clamped to zero before it is
  formatted, so that \<open>format(-5)\<close> is \<open>00:00:00,000\<close>. \<open>_formatSRTTimestamp\<close> has no clamp:
  at \<open>-5\<close> it returns \<open>-1:-1:-5,000\<close>. (\<open>formatTimestamp\<close> of shift-timing.js does clamp, see
  \<open>formatTimestamp_clamps_negative\<close>.)
\<close>

theorem formatSRTTimestamp_negative_not_clamped:
  "formatSRTTimestamp (- 5) = ''-1:-1:-5,000''"
proof -
  have m: "\<lfloor>toDouble (toDouble (- 5) * 1000)\<rfloor> = - 5000"
    using millis_of_int [of "- 5"] by simp
  show ?thesis
    by (simp add: formatSRTTimestamp_def m pad_def toString_def js_rem_def digits.simps
        padLoop.simps digit_def)
qed

section \<open>Line wrapping\<close>

lemma wrapLoop_empty_words:
  "\<forall>w \<in> set words. w = [] \<Longrightarrow> wrapLoop words maxLength lines [] = (lines, [])"
proof (induction words arbitrary: lines)
  case Nil
  show ?case by simp
next
  case (Cons word words)
  have t: "js_trim '' '' = []" using js_trim_spaces [of 1] by simp
  from Cons.prems have w: "word = []" by simp
  from Cons have "wrapLoop words maxLength lines [] = (lines, [])" by simp
  with w t show ?case by simp
qed

lemma blank_text_no_lines:
  assumes "maxLength < n"
  shows "splitTextIntoLines (replicate n CHR '' '') maxLength = []"
proof -
  have "wrapLoop (replicate (Suc n) []) maxLength [] [] = ([], [])"
    by (rule wrapLoop_empty_words) simp
  then have "greedyLines (js_split (replicate n CHR '' '') CHR '' '') maxLength = []"
    by (simp only: greedyLines_def js_split_spaces) simp
  with assms show ?thesis
    by (simp only: splitTextIntoLines_def Let_def) simp
qed

lemma wrap_at_most_two: "length (splitTextIntoLines text maxLength) \<le> 2"
  by (simp add: splitTextIntoLines_def Let_def)

text \<open>
  Claim C4. The claim asks for one or two lines on every text. A text of spaces only that
  is longer than the width comes back as no line at all: every word of it is empty, so
  nothing is ever pushed. Here 43 spaces at the width 42 that the builder uses. (At most
  two lines are returned on every input, \<open>wrap_at_most_two\<close>.)
\<close>

theorem splitTextIntoLines_blank_text_zero_lines:
  "splitTextIntoLines (replicate 43 CHR '' '') 42 = []"
  by (rule blank_text_no_lines) simp

lemma ceil_half: "nat \<lceil>real n / 2\<rceil> = (n + 1) div 2"
proof -
  have "\<exists>k. n = 2 * k \<or> n = 2 * k + 1" by presburger
  then obtain k where k: "n = 2 * k \<or> n = 2 * k + 1" ..
  then show ?thesis
  proof
    assume e: "n = 2 * k"
    then have "real n / 2 = of_int (int k)" by simp
    then have "\<lceil>real n / 2\<rceil> = int k" by (simp only: ceiling_of_int)
    with e show ?thesis by simp
  next
    assume o: "n = 2 * k + 1"
    then have r: "real n / 2 = real k + 1 / 2" by simp
    have "\<lceil>real k + 1 / 2\<rceil> = int k + 1"
      by (rule ceiling_unique) simp_all
    then have "nat \<lceil>real n / 2\<rceil> = k + 1"
      by (simp add: r)
    moreover from o have "(n + 1) div 2 = k + 1" by simp
    ultimately show ?thesis by simp
  qed
qed

lemma wrapLoop_all_fit:
  assumes "length cur + (if ws = [] then 0 else 1 + length (js_join ws '' ''))
             \<le> m + (if cur = [] then 1 else 0)"
  shows "fst (wrapLoop ws m lines cur) = lines"
  using assms
proof (induction ws arbitrary: cur)
  case Nil
  show ?case by simp
next
  case (Cons w ws)
  have j: "length (js_join (w # ws) '' '') = length w + (if ws = [] then 0 else 1 + length (js_join ws '' ''))"
    by (cases ws) simp_all
  show ?case
  proof (cases "cur = []")
    case True
    with Cons.prems j have b: "length w + (if ws = [] then 0 else 1 + length (js_join ws '' '')) \<le> m"
      by simp
    then have "length (js_trim (CHR '' '' # w)) \<le> m"
      using js_trim_space_length [of w] by linarith
    with True have "wrapLoop (w # ws) m lines cur = wrapLoop ws m lines w" by simp
    moreover from b have "fst (wrapLoop ws m lines w) = lines"
      by (intro Cons.IH) simp
    ultimately show ?thesis by simp
  next
    case False
    with Cons.prems j have b:
      "length (cur @ '' '' @ w) + (if ws = [] then 0 else 1 + length (js_join ws '' '')) \<le> m"
      by simp
    then have "length (js_trim (cur @ '' '' @ w)) \<le> m"
      using js_trim_length [of "cur @ '' '' @ w"] by linarith
    with False have "wrapLoop (w # ws) m lines cur = wrapLoop ws m lines (cur @ '' '' @ w)"
      by simp
    moreover from b have "fst (wrapLoop ws m lines (cur @ '' '' @ w)) = lines"
      by (intro Cons.IH) simp
    ultimately show ?thesis by simp
  qed
qed

lemma greedyLines_short_text:
  assumes "length text \<le> maxLength"
  shows "length (greedyLines (js_split text CHR '' '') maxLength) \<le> 1"
proof -
  let ?ws = "js_split text CHR '' ''"
  have "js_join ?ws '' '' = text" using js_join_split [of "text" "CHR '' ''"] by simp
  with assms have "length [] + (if ?ws = [] then 0 else 1 + length (js_join ?ws '' ''))
             \<le> maxLength + (if ([]::string) = [] then 1 else 0)"
    by simp
  then have "fst (wrapLoop ?ws maxLength [] []) = []" by (rule wrapLoop_all_fit)
  then show ?thesis
    by (cases "wrapLoop ?ws maxLength [] []") (simp add: greedyLines_def)
qed

text \<open>
  Claim C6. When the greedy wrap gives more than two lines (which happens only for a text
  longer than the width, \<open>greedyLines_short_text\<close>), the result is exactly two lines: the
  first \<open>ceil(wordCount / 2)\<close> words of the original word list joined by spaces, and the
  remaining words joined by spaces, whatever their widths.
\<close>

theorem splitTextIntoLines_fallback_at_midpoint:
  assumes "2 < length (greedyLines (js_split text CHR '' '') maxLength)"
  shows "splitTextIntoLines text maxLength =
           [js_join (take (nat \<lceil>real (length (js_split text CHR '' '')) / 2\<rceil>)
                      (js_split text CHR '' '')) '' '',
            js_join (drop (nat \<lceil>real (length (js_split text CHR '' '')) / 2\<rceil>)
                      (js_split text CHR '' '')) '' '']"
proof -
  from assms greedyLines_short_text [of "text" maxLength] have "maxLength < length text"
    by (cases "length text \<le> maxLength") simp_all
  with assms show ?thesis by (simp add: splitTextIntoLines_def Let_def ceil_half)
qed

theorem splitTextIntoLines_fallback_at_midpoint_witness:
  "2 < length (greedyLines (js_split ''aa bb cc'' CHR '' '') 2)
   \<and> splitTextIntoLines ''aa bb cc'' 2 = [''aa bb'', ''cc'']"
proof -
  have s: "js_split ''aa bb cc'' CHR '' '' = [''aa'', ''bb'', ''cc'']" by simp
  have g: "greedyLines [''aa'', ''bb'', ''cc''] 2 = [''aa'', ''bb'', ''cc'']"
    by (simp add: greedyLines_def js_trim_def isWhiteSpace_def)
  have b: "2 < length (greedyLines (js_split ''aa bb cc'' CHR '' '') 2)"
    by (simp only: s g) simp
  have c: "nat \<lceil>real (length [''aa'', ''bb'', ''cc'']) / 2\<rceil> = 2" by (simp add: ceil_half)
  from splitTextIntoLines_fallback_at_midpoint [OF b]
  have "splitTextIntoLines ''aa bb cc'' 2 = [''aa bb'', ''cc'']"
    by (simp only: s c) simp
  with b show ?thesis by blast
qed

lemma wrapLoop_join:
  assumes "\<forall>w \<in> set ws. w \<noteq> [] \<and> \<not> isWhiteSpace (hd w) \<and> \<not> isWhiteSpace (last w)"
    and "cur = [] \<or> (\<not> isWhiteSpace (hd cur) \<and> \<not> isWhiteSpace (last cur))"
    and "wrapLoop ws m lines cur = (ls, c)"
  shows "js_join (ls @ (if c \<noteq> [] then [js_trim c] else [])) '' '' =
         js_join (lines @ (if cur \<noteq> [] then [cur] else []) @ ws) '' ''"
  using assms
proof (induction ws arbitrary: lines cur)
  case Nil
  then show ?case by (auto simp: js_trim_clean)
next
  case (Cons w ws)
  from Cons.prems(1) have w: "w \<noteq> []" "\<not> isWhiteSpace (hd w)" "\<not> isWhiteSpace (last w)"
    and rest: "\<forall>w \<in> set ws. w \<noteq> [] \<and> \<not> isWhiteSpace (hd w) \<and> \<not> isWhiteSpace (last w)"
    by simp_all
  from w have wc: "w = [] \<or> (\<not> isWhiteSpace (hd w) \<and> \<not> isWhiteSpace (last w))" by simp
  show ?case
  proof (cases "length (js_trim (cur @ '' '' @ w)) > m")
    case long: True
    show ?thesis
    proof (cases "cur = []")
      case True
      with long Cons.prems(3) have "wrapLoop ws m (lines @ [w]) [] = (ls, c)" by simp
      from Cons.IH [OF rest _ this] True show ?thesis by simp
    next
      case False
      with Cons.prems(2) have "js_trim cur = cur" by (simp add: js_trim_clean)
      with False long Cons.prems(3) have "wrapLoop ws m (lines @ [cur]) w = (ls, c)" by simp
      from Cons.IH [OF rest wc this] False w show ?thesis by simp
    qed
  next
    case fits: False
    show ?thesis
    proof (cases "cur = []")
      case True
      with fits Cons.prems(3) have "wrapLoop ws m lines w = (ls, c)" by simp
      from Cons.IH [OF rest wc this] True w show ?thesis by simp
    next
      case False
      with fits Cons.prems(3) have r: "wrapLoop ws m lines (cur @ '' '' @ w) = (ls, c)" by simp
      from False w Cons.prems(2)
      have cc: "cur @ '' '' @ w = [] \<or>
                (\<not> isWhiteSpace (hd (cur @ '' '' @ w)) \<and> \<not> isWhiteSpace (last (cur @ '' '' @ w)))"
        by simp
      from Cons.IH [OF rest cc r]
      have "js_join (ls @ (if c \<noteq> [] then [js_trim c] else [])) '' '' =
            js_join (lines @ (cur @ '' '' @ w) # ws) '' ''"
        by simp
      also have "\<dots> = js_join (lines @ cur # w # ws) '' ''"
        by (rule js_join_merge [symmetric])
      finally show ?thesis using False by simp
    qed
  qed
qed

lemma wrapLoop_length:
  "wrapLoop ws m lines cur = (ls, c) \<Longrightarrow>
     length ls + (if c \<noteq> [] then 1 else 0)
       \<le> length lines + (if cur \<noteq> [] then 1 else 0) + length ws"
proof (induction ws arbitrary: lines cur)
  case Nil
  then show ?case by auto
next
  case (Cons w ws)
  show ?case
  proof (cases "length (js_trim (cur @ '' '' @ w)) > m")
    case long: True
    show ?thesis
    proof (cases "cur = []")
      case True
      with long Cons.prems have "wrapLoop ws m (lines @ [w]) [] = (ls, c)" by simp
      from Cons.IH [OF this] True show ?thesis by simp
    next
      case False
      with long Cons.prems have "wrapLoop ws m (lines @ [js_trim cur]) w = (ls, c)" by simp
      from Cons.IH [OF this] False show ?thesis by (simp split: if_splits)
    qed
  next
    case fits: False
    show ?thesis
    proof (cases "cur = []")
      case True
      with fits Cons.prems have "wrapLoop ws m lines w = (ls, c)" by simp
      from Cons.IH [OF this] True show ?thesis by (simp split: if_splits)
    next
      case False
      with fits Cons.prems have "wrapLoop ws m lines (cur @ '' '' @ w) = (ls, c)" by simp
      from Cons.IH [OF this] False show ?thesis by (simp split: if_splits)
    qed
  qed
qed

lemma greedyLines_join:
  assumes "\<forall>w \<in> set ws. w \<noteq> [] \<and> \<not> isWhiteSpace (hd w) \<and> \<not> isWhiteSpace (last w)"
  shows "js_join (greedyLines ws m) '' '' = js_join ws '' ''"
proof -
  obtain ls c where r: "wrapLoop ws m [] [] = (ls, c)" by (cases "wrapLoop ws m [] []")
  from wrapLoop_join [OF assms _ r] have
    "js_join (ls @ (if c \<noteq> [] then [js_trim c] else [])) '' '' = js_join ws '' ''" by simp
  with r show ?thesis by (cases "c = []") (simp_all add: greedyLines_def)
qed

lemma greedyLines_length: "length (greedyLines ws m) \<le> length ws"
proof -
  obtain ls c where r: "wrapLoop ws m [] [] = (ls, c)" by (cases "wrapLoop ws m [] []")
  from wrapLoop_length [OF r] r show ?thesis by (simp add: greedyLines_def split: if_splits)
qed

text \<open>
  Claim C10. Take words that are not empty, hold no space, and neither begin nor end with
  another white-space character, and join them with single spaces. Whatever the width,
  joining the lines of the wrapped text with single spaces gives the text back: no word is
  lost, cut, moved or repeated, on the short path, the greedy path and the two-line
  fallback alike.
\<close>

theorem splitTextIntoLines_keeps_words:
  assumes "\<forall>w \<in> set words.
             w \<noteq> [] \<and> CHR '' '' \<notin> set w \<and> \<not> isWhiteSpace (hd w) \<and> \<not> isWhiteSpace (last w)"
  shows "js_join (splitTextIntoLines (js_join words '' '') maxWidth) '' '' = js_join words '' ''"
proof (cases "length (js_join words '' '') \<le> maxWidth")
  case True
  then show ?thesis by (simp add: splitTextIntoLines_def)
next
  case False
  then have ne: "words \<noteq> []" by auto
  from assms have "\<forall>w \<in> set words. CHR '' '' \<notin> set w" by blast
  with ne have sp: "js_split (js_join words [CHR '' '']) CHR '' '' = words"
    by (rule js_split_join)
  from assms have cl:
    "\<forall>w \<in> set words. w \<noteq> [] \<and> \<not> isWhiteSpace (hd w) \<and> \<not> isWhiteSpace (last w)" by blast
  show ?thesis
  proof (cases "length (greedyLines words maxWidth) > 2")
    case greedy: False
    with False sp show ?thesis
      by (simp add: splitTextIntoLines_def greedyLines_join [OF cl])
  next
    case fallback: True
    let ?h = "(length words + 1) div 2"
    from fallback greedyLines_length [of words maxWidth] have n: "2 < length words" by simp
    then have a: "take ?h words \<noteq> []" and b: "drop ?h words \<noteq> []" by auto
    have "js_join [js_join (take ?h words) '' '', js_join (drop ?h words) '' ''] '' ''
            = js_join (take ?h words @ drop ?h words) '' ''"
      using js_join_append [OF a b, of "'' ''"] by simp
    then have "js_join [js_join (take ?h words) '' '', js_join (drop ?h words) '' ''] '' ''
            = js_join words '' ''" by simp
    with False fallback sp show ?thesis
      by (simp add: splitTextIntoLines_def Let_def)
  qed
qed

theorem splitTextIntoLines_keeps_words_witness:
  "js_join (splitTextIntoLines ''aa bb cc'' 2) '' '' = ''aa bb cc''
   \<and> js_join (splitTextIntoLines ''aa bb cc'' 5) '' '' = ''aa bb cc''"
proof -
  have h: "\<forall>w \<in> set [''aa'', ''bb'', ''cc''].
             w \<noteq> [] \<and> CHR '' '' \<notin> set w \<and> \<not> isWhiteSpace (hd w) \<and> \<not> isWhiteSpace (last w)"
    by (simp add: isWhiteSpace_def)
  from splitTextIntoLines_keeps_words [OF h, of 2] splitTextIntoLines_keeps_words [OF h, of 5]
  show ?thesis by simp
qed

section \<open>Building a track\<close>

lemma srtBlocksFrom_length: "length (srtBlocksFrom k segments) = length segments"
  by (induction segments arbitrary: k) simp_all

lemma srtBlocksFrom_nth:
  "i < length segments \<Longrightarrow> srtBlocksFrom k segments ! i = srtBlock (segments ! i) (k + i)"
proof (induction segments arbitrary: k i)
  case Nil
  then show ?case by simp
next
  case (Cons sg segments)
  show ?case
  proof (cases i)
    case 0
    then show ?thesis by simp
  next
    case (Suc j)
    with Cons.prems have "j < length segments" by simp
    from Cons.IH [OF this, of "Suc k"] Suc show ?thesis by simp
  qed
qed

text \<open>
  Claim C7. The builder makes one block per segment, in input order: block \<open>i\<close> (counted
  from 0) starts with the index line \<open>i + 1\<close>, then the line \<open>start --> end\<close>, then the
  wrapped text lines, then an empty line, all joined by line feeds; the track is the blocks
  joined by line feeds.
\<close>

theorem generateSRT_blocks:
  "length (srtBlocks segments) = length segments
   \<and> (\<forall>i < length segments.
         srtBlocks segments ! i =
           js_join ([toString (int i + 1),
                     formatSRTTimestamp (seg_start (segments ! i)) @ '' --> ''
                       @ formatSRTTimestamp (seg_end (segments ! i))]
                    @ splitTextIntoLines (seg_text (segments ! i)) 42 @ [''''])
                   [CHR 0x0A])
   \<and> generateSRT segments = js_join (srtBlocks segments) [CHR 0x0A]"
  by (simp add: srtBlocks_def srtBlocksFrom_length srtBlocksFrom_nth srtBlock_def
      generateSRT_def Let_def add.commute)

theorem generateSRT_blocks_witness:
  "length (srtBlocks [demoSegment]) = 1
   \<and> srtBlocks [demoSegment] ! 0 =
       ''1'' @ [CHR 0x0A] @ ''00:00:01,000 --> 00:00:04,000'' @ [CHR 0x0A] @ ''Hello world''
         @ [CHR 0x0A]
   \<and> generateSRT [demoSegment] =
       ''1'' @ [CHR 0x0A] @ ''00:00:01,000 --> 00:00:04,000'' @ [CHR 0x0A] @ ''Hello world''
         @ [CHR 0x0A]"
proof -
  have m1: "\<lfloor>toDouble (toDouble 1 * 1000)\<rfloor> = 1000"
    using millis_of_int [of 1] by simp
  have m4: "\<lfloor>toDouble (toDouble 4 * 1000)\<rfloor> = 4000"
    using millis_of_int [of 4] by simp
  have f1: "formatSRTTimestamp 1 = ''00:00:01,000''"
    by (simp add: formatSRTTimestamp_def m1 pad_def toString_def js_rem_def digits.simps
        padLoop.simps digit_def)
  have f4: "formatSRTTimestamp 4 = ''00:00:04,000''"
    by (simp add: formatSRTTimestamp_def m4 pad_def toString_def js_rem_def digits.simps
        padLoop.simps digit_def)
  have w: "splitTextIntoLines ''Hello world'' 42 = [''Hello world'']"
    by (simp add: splitTextIntoLines_def)
  have t: "toString 1 = ''1''"
    by (simp add: toString_def digits.simps digit_def)
  let ?X = "''1'' @ [CHR 0x0A] @ ''00:00:01,000 --> 00:00:04,000'' @ [CHR 0x0A] @ ''Hello world''
         @ [CHR 0x0A]"
  from generateSRT_blocks [of "[demoSegment]"]
  have len: "length (srtBlocks [demoSegment]) = 1"
    and blk: "srtBlocks [demoSegment] ! 0 = ?X"
    and gen: "generateSRT [demoSegment] = js_join (srtBlocks [demoSegment]) [CHR 0x0A]"
    by (simp_all add: demoSegment_def f1 f4 w t)
  from len blk have "srtBlocks [demoSegment] = [?X]"
    by (cases "srtBlocks [demoSegment]") simp_all
  with gen have "generateSRT [demoSegment] = ?X" by simp
  with len blk show ?thesis by blast
qed

section \<open>Merging a translation\<close>

lemma fillLoop_eq:
  "fillLoop i segments translated final =
     final @ map (\<lambda>j. if j < length translated then translated ! j else segments ! j)
               [i..<length segments]"
proof (induction i segments translated final rule: fillLoop.induct)
  case (1 i segments translated final)
  show ?case
  proof (cases "i < length segments")
    case True
    from 1 [OF True] True show ?thesis
      by (subst fillLoop.simps) (simp add: upt_conv_Cons)
  next
    case False
    then show ?thesis by (subst fillLoop.simps) simp
  qed
qed

text \<open>
  Claim C8. When the number of segments parsed out of the response differs from the number
  of input segments, the merge returns as many segments as it was given: position \<open>i\<close>
  holds the \<open>i\<close>-th parsed segment while there is one, and the unchanged input segment
  \<open>i\<close> (its text and its timing) from there on. Nothing fails.
\<close>

theorem translateAllSegments_fallback:
  assumes "length (parsedSegments segments content) \<noteq> length segments"
  shows "length (translateAllSegments segments content) = length segments
         \<and> (\<forall>i < length segments.
               translateAllSegments segments content ! i =
                 (if i < length (parsedSegments segments content)
                  then parsedSegments segments content ! i
                  else segments ! i))"
  using assms by (simp add: translateAllSegments_def Let_def fillLoop_eq)

theorem translateAllSegments_fallback_witness:
  "length (parsedSegments [demoSegment, demoSegment2] ''[0] Hola'')
     \<noteq> length [demoSegment, demoSegment2]
   \<and> length (translateAllSegments [demoSegment, demoSegment2] ''[0] Hola'') = 2
   \<and> translateAllSegments [demoSegment, demoSegment2] ''[0] Hola'' ! 0
       = translatedSegment demoSegment ''Hola''
   \<and> translateAllSegments [demoSegment, demoSegment2] ''[0] Hola'' ! 1 = demoSegment2"
proof -
  have p: "parsedSegments [demoSegment, demoSegment2] ''[0] Hola''
             = [translatedSegment demoSegment ''Hola'']"
    by (simp add: parsedSegments_def js_trim_def isWhiteSpace_def matchLine_def isDigit_def
        isLineTerminator_def decValue_def radixValue_def indexOf_def)
  then have n: "length (parsedSegments [demoSegment, demoSegment2] ''[0] Hola'')
                  \<noteq> length [demoSegment, demoSegment2]"
    by simp
  from translateAllSegments_fallback [OF n] show ?thesis
    by (simp add: p)
qed

section \<open>Shifting a track\<close>

lemma String_js_small: "String_js (Fin 0) = ''0''"
  by (simp add: String_js_def toString_def digits.simps digit_def)

lemma formatTimestamp_zero: "formatTimestamp (Fin 0) = ''00:00:00,000''"
  by (simp add: formatTimestamp_def truncQuot_def padStart_def String_js_small
      numeral_2_eq_2 numeral_3_eq_3)

lemma formatTimestamp_clamps_negative:
  "js_less x (Fin 0) \<Longrightarrow> formatTimestamp x = ''00:00:00,000''"
proof -
  assume "js_less x (Fin 0)"
  then have "formatTimestamp x = formatTimestamp (Fin 0)"
    by (simp add: formatTimestamp_def)
  then show ?thesis by (simp only: formatTimestamp_zero)
qed

lemma parseTimestamp_Some: "\<exists>v. parseTimestamp (Some t) = Inr v"
  by (simp add: Let_def)

lemma parseTimestamp_fails_iff: "(\<exists>e. parseTimestamp x = Inl e) \<longleftrightarrow> x = None"
  by (cases x) (simp_all add: Let_def)

lemma shiftLoop_fails_iff:
  "(\<exists>e. shiftLoop ls offsetMs acc = Inl e) \<longleftrightarrow>
     (\<exists>line \<in> set ls. js_includes line ''-->'' \<and> length (js_split line CHR '' '') < 3)"
proof (induction ls arbitrary: acc)
  case Nil
  show ?case by simp
next
  case (Cons line ls)
  show ?case
  proof (cases "js_includes line ''-->''")
    case False
    with Cons show ?thesis by simp
  next
    case True
    obtain s where s: "parseTimestamp (nth_opt (js_split line CHR '' '') 0) = Inr s"
      using parseTimestamp_Some js_split_length [of line "CHR '' ''"]
      by (auto simp: nth_opt_def)
    show ?thesis
    proof (cases "length (js_split line CHR '' '') < 3")
      case short: True
      then have "parseTimestamp (nth_opt (js_split line CHR '' '') 2) = Inl TypeError"
        by (simp add: nth_opt_def)
      with True s short show ?thesis by (simp add: Let_def)
    next
      case long: False
      then obtain e where e: "parseTimestamp (nth_opt (js_split line CHR '' '') 2) = Inr e"
        using parseTimestamp_Some by (auto simp: nth_opt_def)
      with True s long Cons show ?thesis by (simp add: Let_def)
    qed
  qed
qed

lemma digits_no_LF: "CHR 0x0A \<notin> set (digits n)"
  using digits_all_digit [of n] isDigit_not_LF by (auto simp: list_all_iff)

lemma toString_no_LF: "CHR 0x0A \<notin> set (toString n)"
  using toString_chars [of "CHR 0x0A" n] isDigit_not_LF by auto

lemma positiveToString_no_LF: "CHR 0x0A \<notin> set (positiveToString r)"
proof -
  have a: "\<And>n k. CHR 0x0A \<notin> set (take k (digits n))"
    using digits_no_LF by (meson in_set_takeD)
  have b: "\<And>n k. CHR 0x0A \<notin> set (drop k (digits n))"
    using digits_no_LF by (meson in_set_dropD)
  have c: "\<And>n. hd (digits n) \<noteq> CHR 0x0A"
    using digits_no_LF digits_nonempty by (metis list.set_sel(1))
  have d: "\<And>n. CHR 0x0A \<notin> set (tl (digits n))"
    using digits_no_LF digits_nonempty by (metis list.set_sel(2))
  show ?thesis
    by (simp add: positiveToString_def Let_def a b c c [symmetric] d digits_no_LF
        split: prod.splits)
qed

lemma String_js_no_LF: "CHR 0x0A \<notin> set (String_js x)"
  by (cases x) (simp_all add: String_js_def toString_no_LF positiveToString_no_LF)

lemma formatTimestamp_no_LF: "CHR 0x0A \<notin> set (formatTimestamp x)"
  by (simp add: formatTimestamp_def Let_def padStart_def String_js_no_LF)

lemma shiftLoop_result:
  assumes "shiftLoop ls offsetMs acc = Inr res"
  shows "\<exists>new. res = acc @ new \<and>
           list_all2 (\<lambda>line out.
              if js_includes line ''-->'' then
                (\<exists>startMs endMs.
                   parseTimestamp (nth_opt (js_split line CHR '' '') 0) = Inr startMs
                 \<and> parseTimestamp (nth_opt (js_split line CHR '' '') 2) = Inr endMs
                 \<and> out = formatTimestamp (js_add startMs offsetMs) @ '' --> ''
                           @ formatTimestamp (js_add endMs offsetMs))
              else out = line) ls new"
proof -
  let ?P = "\<lambda>line out.
              if js_includes line ''-->'' then
                (\<exists>startMs endMs.
                   parseTimestamp (nth_opt (js_split line CHR '' '') 0) = Inr startMs
                 \<and> parseTimestamp (nth_opt (js_split line CHR '' '') 2) = Inr endMs
                 \<and> out = formatTimestamp (js_add startMs offsetMs) @ '' --> ''
                           @ formatTimestamp (js_add endMs offsetMs))
              else out = line"
  from assms have "\<exists>new. res = acc @ new \<and> list_all2 ?P ls new"
  proof (induction ls arbitrary: acc)
    case Nil
    then show ?case by simp
  next
    case (Cons line ls)
    show ?case
    proof (cases "js_includes line ''-->''")
      case False
      with Cons.prems have "shiftLoop ls offsetMs (acc @ [line]) = Inr res" by simp
      from Cons.IH [OF this] obtain new where
        n: "res = (acc @ [line]) @ new" "list_all2 ?P ls new" by blast
      from False have p: "?P line line" by simp
      from p n(2) have l: "list_all2 ?P (line # ls) (line # new)"
        by (rule list.rel_intros(2))
      from n(1) have "res = acc @ (line # new)" by simp
      from this l have "res = acc @ (line # new) \<and> list_all2 ?P (line # ls) (line # new)" ..
      then show ?thesis by (rule exI)
    next
      case True
      with Cons.prems obtain s e where
        s: "parseTimestamp (nth_opt (js_split line CHR '' '') 0) = Inr s" and
        e: "parseTimestamp (nth_opt (js_split line CHR '' '') 2) = Inr e" and
        r: "shiftLoop ls offsetMs
              (acc @ [formatTimestamp (js_add s offsetMs) @ '' --> ''
                      @ formatTimestamp (js_add e offsetMs)]) = Inr res"
        by (auto simp: Let_def split: sum.splits)
      let ?o = "formatTimestamp (js_add s offsetMs) @ '' --> ''
                  @ formatTimestamp (js_add e offsetMs)"
      from Cons.IH [OF r] obtain new where
        n: "res = (acc @ [?o]) @ new" "list_all2 ?P ls new" by blast
      from True s e have p: "?P line ?o" by simp
      from p n(2) have l: "list_all2 ?P (line # ls) (?o # new)"
        by (rule list.rel_intros(2))
      from n(1) have "res = acc @ (?o # new)" by simp
      from this l have "res = acc @ (?o # new) \<and> list_all2 ?P (line # ls) (?o # new)" ..
      then show ?thesis by (rule exI)
    qed
  qed
  then show ?thesis .
qed

lemma js_add_NaN_right: "js_add x NaN = NaN"
  by (cases x) simp_all

lemma js_mul_NaN_right: "js_mul x NaN = NaN"
  by (cases x) simp_all

lemma formatTimestamp_NaN: "formatTimestamp NaN = ''NaN:NaN:NaN,NaN''"
  by (simp add: formatTimestamp_def padStart_def String_js_def)

lemma parseTimestamp_NaN:
  assumes "length (js_split t CHR '','') < 2
           \<or> Number_js (js_split t CHR '','' ! 1) = NaN
           \<or> length (js_split (hd (js_split t CHR '','')) CHR '':'') < 3
           \<or> Number_js (js_split (hd (js_split t CHR '','')) CHR '':'' ! 0) = NaN
           \<or> Number_js (js_split (hd (js_split t CHR '','')) CHR '':'' ! 1) = NaN
           \<or> Number_js (js_split (hd (js_split t CHR '','')) CHR '':'' ! 2) = NaN"
  shows "parseTimestamp (Some t) = Inr NaN"
proof -
  let ?parts = "js_split t CHR '',''"
  let ?fields = "js_split (hd ?parts) CHR '':''"
  let ?nums = "map Number_js ?fields"
  have ms: "Number_opt (nth_opt ?parts 1) = NaN"
    if "length ?parts < 2 \<or> Number_js (?parts ! 1) = NaN"
    using that by (auto simp: nth_opt_def)
  have hms: "nth_num ?nums 0 = NaN \<or> nth_num ?nums 1 = NaN \<or> nth_num ?nums 2 = NaN"
    if "length ?fields < 3 \<or> Number_js (?fields ! 0) = NaN \<or> Number_js (?fields ! 1) = NaN
        \<or> Number_js (?fields ! 2) = NaN"
    using that by (auto simp: nth_num_def)
  from assms consider
      (a) "Number_opt (nth_opt ?parts 1) = NaN"
    | (b) "nth_num ?nums 0 = NaN" | (c) "nth_num ?nums 1 = NaN" | (d) "nth_num ?nums 2 = NaN"
    using ms hms by blast
  then show ?thesis
  proof cases
    case a
    then show ?thesis by (simp add: Let_def js_add_NaN_right)
  next
    case b
    then show ?thesis by (simp add: Let_def)
  next
    case c
    then show ?thesis by (simp add: Let_def js_add_NaN_right)
  next
    case d
    then show ?thesis by (simp add: Let_def js_add_NaN_right)
  qed
qed

text \<open>
  Claim C2, as the code has it. \<open>parseTimestamp\<close> checks no shape and never fails on a
  text: it returns a number. That number is \<open>NaN\<close> when the text has no comma, when the
  part before the first comma has fewer than three fields between colons, or when
  \<open>Number\<close> of the field after the first comma, or of one of the first three fields, is
  \<open>NaN\<close>. A time that is \<open>NaN\<close> is written \<open>NaN:NaN:NaN,NaN\<close> whatever the offset.
  \<open>shiftSubtitles\<close> fails, with a TypeError and without any output, exactly when a line
  that contains \<open>-->\<close> has fewer than three space-separated tokens, so that its third token
  is \<open>undefined\<close>.
\<close>

theorem shiftSubtitles_fails_iff:
  "(\<exists>v. parseTimestamp (Some t) = Inr v)
   \<and> (length (js_split t CHR '','') < 2
        \<or> Number_js (js_split t CHR '','' ! 1) = NaN
        \<or> length (js_split (hd (js_split t CHR '','')) CHR '':'') < 3
        \<or> Number_js (js_split (hd (js_split t CHR '','')) CHR '':'' ! 0) = NaN
        \<or> Number_js (js_split (hd (js_split t CHR '','')) CHR '':'' ! 1) = NaN
        \<or> Number_js (js_split (hd (js_split t CHR '','')) CHR '':'' ! 2) = NaN
      \<longrightarrow> parseTimestamp (Some t) = Inr NaN)
   \<and> formatTimestamp (js_add NaN offsetMs) = ''NaN:NaN:NaN,NaN''
   \<and> (shiftSubtitles content offsetMs = Inl TypeError \<longleftrightarrow>
        (\<exists>line \<in> set (js_split content CHR 0x0A).
           js_includes line ''-->'' \<and> length (js_split line CHR '' '') < 3))"
proof -
  have "shiftSubtitles content offsetMs = Inl TypeError \<longleftrightarrow>
        (\<exists>e. shiftLoop (js_split content CHR 0x0A) offsetMs [] = Inl e)"
    by (cases "shiftLoop (js_split content CHR 0x0A) offsetMs []")
       (auto simp: shiftSubtitles_def intro: js_error.exhaust)
  then have f: "shiftSubtitles content offsetMs = Inl TypeError \<longleftrightarrow>
        (\<exists>line \<in> set (js_split content CHR 0x0A).
           js_includes line ''-->'' \<and> length (js_split line CHR '' '') < 3)"
    by (simp only: shiftLoop_fails_iff)
  have n: "formatTimestamp (js_add NaN offsetMs) = ''NaN:NaN:NaN,NaN''"
    by (simp add: formatTimestamp_NaN)
  from parseTimestamp_Some [of t] parseTimestamp_NaN [of t] n f show ?thesis by blast
qed

theorem shiftSubtitles_fails_iff_witness:
  "parseTimestamp (Some ''bad-timestamp'') = Inr NaN
   \<and> shiftSubtitles ''-->'' (Fin 0) = Inl TypeError
   \<and> shiftSubtitles ''00:00:01,000 --> bad-timestamp'' (Fin 0) \<noteq> Inl TypeError"
proof -
  have p: "length (js_split ''bad-timestamp'' CHR '','') < 2" by simp
  have a: "\<exists>line \<in> set (js_split ''-->'' CHR 0x0A).
             js_includes line ''-->'' \<and> length (js_split line CHR '' '') < 3"
    by simp
  have b: "\<not> (\<exists>line \<in> set (js_split ''00:00:01,000 --> bad-timestamp'' CHR 0x0A).
             js_includes line ''-->'' \<and> length (js_split line CHR '' '') < 3)"
    by simp
  from p a b
    shiftSubtitles_fails_iff
      [where t = "''bad-timestamp''" and content = "''-->''" and offsetMs = "Fin 0"]
    shiftSubtitles_fails_iff
      [where t = "''bad-timestamp''" and content = "''00:00:01,000 --> bad-timestamp''"
         and offsetMs = "Fin 0"]
  show ?thesis by blast
qed

text \<open>
  Claim C2 as stated fails: \<open>bad-timestamp\<close> is parsed to \<open>NaN\<close> without a failure, and
  shifting \<open>00:00:01,000 --> bad-timestamp\<close> by 3 seconds returns a track whose end time
  reads \<open>NaN:NaN:NaN,NaN\<close>.
\<close>

theorem shiftSubtitles_malformed_counterexample:
  "parseTimestamp (Some ''bad-timestamp'') = Inr NaN
   \<and> shiftSubtitles (''00:00:01,000 --> bad-timestamp'' @ [CHR 0x0A]) (offsetMsOf 3)
       = Inr (''00:00:04,000 --> NaN:NaN:NaN,NaN'' @ [CHR 0x0A])"
proof -
  have "parseTimestamp (Some ''bad-timestamp'') = Inr NaN
   \<and> shiftSubtitles (''00:00:01,000 --> bad-timestamp'' @ [CHR 0x0A]) (Fin 3000)
       = Inr (''00:00:04,000 --> NaN:NaN:NaN,NaN'' @ [CHR 0x0A])"
    by code_simp
  then show ?thesis by (simp only: offsetMsOf_3)
qed

text \<open>
  Claim C3, as the code has it. When the shift returns, the output has as many lines as the
  input. A line counts as a timing line exactly when it contains \<open>-->\<close> (spaces or not):
  such a line is replaced by the two shifted timestamps around \<open> --> \<close>; every other line
  is in the output unchanged, at the same position.
\<close>

theorem shiftSubtitles_lines:
  assumes "shiftSubtitles content offsetMs = Inr out"
  shows "length (js_split out CHR 0x0A) = length (js_split content CHR 0x0A)
    \<and> (\<forall>i < length (js_split content CHR 0x0A).
          if js_includes (js_split content CHR 0x0A ! i) ''-->'' then
            (\<exists>startMs endMs.
               parseTimestamp (nth_opt (js_split (js_split content CHR 0x0A ! i) CHR '' '') 0)
                 = Inr startMs
             \<and> parseTimestamp (nth_opt (js_split (js_split content CHR 0x0A ! i) CHR '' '') 2)
                 = Inr endMs
             \<and> js_split out CHR 0x0A ! i =
                 formatTimestamp (js_add startMs offsetMs) @ '' --> ''
                   @ formatTimestamp (js_add endMs offsetMs))
          else js_split out CHR 0x0A ! i = js_split content CHR 0x0A ! i)"
proof -
  let ?ls = "js_split content CHR 0x0A"
  let ?P = "\<lambda>line out.
              if js_includes line ''-->'' then
                (\<exists>startMs endMs.
                   parseTimestamp (nth_opt (js_split line CHR '' '') 0) = Inr startMs
                 \<and> parseTimestamp (nth_opt (js_split line CHR '' '') 2) = Inr endMs
                 \<and> out = formatTimestamp (js_add startMs offsetMs) @ '' --> ''
                           @ formatTimestamp (js_add endMs offsetMs))
              else out = line"
  from assms obtain res where
    r: "shiftLoop ?ls offsetMs [] = Inr res" and o: "out = js_join res [CHR 0x0A]"
    by (auto simp: shiftSubtitles_def split: sum.splits)
  from shiftLoop_result [OF r] have all2: "list_all2 ?P ?ls res" by simp
  then have len: "length res = length ?ls" by (simp add: list_all2_lengthD)
  have nth: "?P (?ls ! i) (res ! i)" if "i < length ?ls" for i
    using all2 that by (rule list_all2_nthD)
  have "CHR 0x0A \<notin> set l" if "l \<in> set res" for l
  proof -
    from that obtain i where i: "i < length res" "l = res ! i"
      by (auto simp: in_set_conv_nth)
    with len have il: "i < length ?ls" by simp
    then have "?ls ! i \<in> set ?ls" by (rule nth_mem)
    then have "CHR 0x0A \<notin> set (?ls ! i)" by (rule js_split_no_sep)
    with nth [OF il] i show ?thesis
      by (auto simp: formatTimestamp_no_LF split: if_splits)
  qed
  moreover from len have "res \<noteq> []" using js_split_nonempty [of content "CHR 0x0A"] by auto
  ultimately have rt: "js_split out CHR 0x0A = res"
    by (simp add: o js_split_join)
  from len nth show ?thesis by (simp only: rt) blast
qed

theorem shiftSubtitles_lines_witness:
  "shiftSubtitles (''1'' @ [CHR 0x0A] @ ''00:00:01,000 --> 00:00:04,000'' @ [CHR 0x0A] @ ''Hello'')
     (offsetMsOf 3)
     = Inr (''1'' @ [CHR 0x0A] @ ''00:00:04,000 --> 00:00:07,000'' @ [CHR 0x0A] @ ''Hello'')
   \<and> length (js_split (''1'' @ [CHR 0x0A] @ ''00:00:04,000 --> 00:00:07,000'' @ [CHR 0x0A]
                         @ ''Hello'') CHR 0x0A) = 3
   \<and> js_split (''1'' @ [CHR 0x0A] @ ''00:00:04,000 --> 00:00:07,000'' @ [CHR 0x0A] @ ''Hello'')
         CHR 0x0A ! 2 = ''Hello''"
proof -
  let ?c = "''1'' @ [CHR 0x0A] @ ''00:00:01,000 --> 00:00:04,000'' @ [CHR 0x0A] @ ''Hello''"
  let ?o = "''1'' @ [CHR 0x0A] @ ''00:00:04,000 --> 00:00:07,000'' @ [CHR 0x0A] @ ''Hello''"
  have "shiftSubtitles ?c (Fin 3000) = Inr ?o"
    by code_simp
  then have e: "shiftSubtitles ?c (offsetMsOf 3) = Inr ?o"
    by (simp only: offsetMsOf_3)
  have s: "js_split ?c CHR 0x0A = [''1'', ''00:00:01,000 --> 00:00:04,000'', ''Hello'']"
    by simp
  from shiftSubtitles_lines [OF e]
  have l: "length (js_split ?o CHR 0x0A) = length (js_split ?c CHR 0x0A)"
    and n: "\<forall>i < length (js_split ?c CHR 0x0A).
          if js_includes (js_split ?c CHR 0x0A ! i) ''-->'' then
            (\<exists>startMs endMs.
               parseTimestamp (nth_opt (js_split (js_split ?c CHR 0x0A ! i) CHR '' '') 0)
                 = Inr startMs
             \<and> parseTimestamp (nth_opt (js_split (js_split ?c CHR 0x0A ! i) CHR '' '') 2)
                 = Inr endMs
             \<and> js_split ?o CHR 0x0A ! i =
                 formatTimestamp (js_add startMs (offsetMsOf 3)) @ '' --> ''
                   @ formatTimestamp (js_add endMs (offsetMsOf 3)))
          else js_split ?o CHR 0x0A ! i = js_split ?c CHR 0x0A ! i"
    by blast+
  from l have l3: "length (js_split ?o CHR 0x0A) = 3" by (simp only: s) simp
  have "(2::nat) < length (js_split ?c CHR 0x0A)" by (simp only: s) simp
  with n have "if js_includes (js_split ?c CHR 0x0A ! 2) ''-->'' then
            (\<exists>startMs endMs.
               parseTimestamp (nth_opt (js_split (js_split ?c CHR 0x0A ! 2) CHR '' '') 0)
                 = Inr startMs
             \<and> parseTimestamp (nth_opt (js_split (js_split ?c CHR 0x0A ! 2) CHR '' '') 2)
                 = Inr endMs
             \<and> js_split ?o CHR 0x0A ! 2 =
                 formatTimestamp (js_add startMs (offsetMsOf 3)) @ '' --> ''
                   @ formatTimestamp (js_add endMs (offsetMsOf 3)))
          else js_split ?o CHR 0x0A ! 2 = js_split ?c CHR 0x0A ! 2" by blast
  then have "js_split ?o CHR 0x0A ! 2 = ''Hello''"
    by (simp only: s) simp
  with e l3 show ?thesis by blast
qed

text \<open>
  Claim C3 as stated fails: the line \<open>a b-->c d\<close> does not contain the arrow with a space
  on each side, and still it is rewritten as a timing line.
\<close>

theorem shiftSubtitles_arrow_without_spaces_counterexample:
  "\<not> js_includes ''a b-->c d'' '' --> ''
   \<and> shiftSubtitles ''a b-->c d'' (offsetMsOf 0) = Inr ''NaN:NaN:NaN,NaN --> NaN:NaN:NaN,NaN''"
proof -
  have "\<not> js_includes ''a b-->c d'' '' --> ''
   \<and> shiftSubtitles ''a b-->c d'' (Fin 0) = Inr ''NaN:NaN:NaN,NaN --> NaN:NaN:NaN,NaN''"
    by code_simp
  then show ?thesis unfolding offsetMsOf_0 .
qed

section \<open>Parsing a formatted timestamp\<close>

lemma Number_js_digits:
  assumes "ds \<noteq> []" and "list_all isDigit ds"
  shows "Number_js ds = Fin (of_nat (decValue ds))"
proof -
  from assms have h: "isDigit (hd ds)" and l: "isDigit (last ds)"
    by (simp_all add: list_all_iff)
  then have t: "js_trim ds = ds"
    using isDigit_not_space by (simp add: js_trim_clean)
  have nd: "nonDecimalLiteral ds = None"
  proof (cases ds)
    case Nil
    then show ?thesis by (simp add: nonDecimalLiteral_def)
  next
    case (Cons z r)
    show ?thesis
    proof (cases r)
      case Nil
      with Cons show ?thesis by (simp add: nonDecimalLiteral_def)
    next
      case (Cons x r')
      with \<open>ds = z # r\<close> assms(2) have "isDigit x" by simp
      then have "x \<noteq> CHR ''x'' \<and> x \<noteq> CHR ''X'' \<and> x \<noteq> CHR ''o'' \<and> x \<noteq> CHR ''O''
          \<and> x \<noteq> CHR ''b'' \<and> x \<noteq> CHR ''B''"
        using isDigit_not_letter by blast
      with Cons \<open>ds = z # r\<close> show ?thesis by (simp add: nonDecimalLiteral_def)
    qed
  qed
  from h have sg: "hd ds \<noteq> CHR ''-''" "hd ds \<noteq> CHR ''+''"
    using isDigit_not_sep isDigit_not_letter by blast+
  from h have "hd ds \<noteq> CHR ''I''" using isDigit_not_letter by blast
  then have inf: "ds \<noteq> ''Infinity''" by auto
  from assms(2) have tw: "takeWhile isDigit ds = ds" "dropWhile isDigit ds = []"
    by (simp_all add: list_all_iff)
  from assms(1) have dl: "decimalLiteral ds = Some (of_nat (decValue ds))"
    by (simp add: decimalLiteral_def tw exponentPart_def decValue_Nil)
  from assms(1) show ?thesis
    by (simp add: Number_js_def t nd sg inf dl)
qed

lemma Number_js_pad: "0 \<le> n \<Longrightarrow> Number_js (pad n k) = Fin (of_int n)"
proof -
  assume n: "0 \<le> n"
  then have "decValue (pad n k) = nat n"
    by (simp add: pad_nonneg decValue_zeros_prefix decValue_digits)
  with n pad_all_digits [OF n, of k] pad_nonempty [of n k] show ?thesis
    by (simp add: Number_js_digits)
qed

lemma digits_only_no_sep:
  "list_all isDigit ds \<Longrightarrow> CHR '','' \<notin> set ds \<and> CHR '':'' \<notin> set ds"
  using isDigit_not_sep by (auto simp: list_all_iff)

lemma parseTimestamp_fields:
  assumes "list_all isDigit H" "list_all isDigit M" "list_all isDigit S" "list_all isDigit MS"
  shows "parseTimestamp (Some (H @ '':'' @ M @ '':'' @ S @ '','' @ MS)) =
           Inr (js_add
                  (js_mul (js_add (js_add (js_mul (Number_js H) (Fin 3600))
                                          (js_mul (Number_js M) (Fin 60)))
                                  (Number_js S))
                          (Fin 1000))
                  (Number_js MS))"
proof -
  from assms have c: "CHR '','' \<notin> set (H @ '':'' @ M @ '':'' @ S)" "CHR '','' \<notin> set MS"
    using digits_only_no_sep by auto
  have "js_split ((H @ '':'' @ M @ '':'' @ S) @ CHR '','' # MS) CHR '',''
          = (H @ '':'' @ M @ '':'' @ S) # js_split MS CHR '',''"
    using c(1) by (rule js_split_append_sep)
  also have "js_split MS CHR '','' = [MS]"
    using c(2) by (rule js_split_without_sep)
  finally have s1: "js_split (H @ CHR '':'' # M @ CHR '':'' # S @ CHR '','' # MS) CHR '',''
                   = [H @ CHR '':'' # M @ CHR '':'' # S, MS]"
    by simp
  from assms have d: "CHR '':'' \<notin> set H" "CHR '':'' \<notin> set M" "CHR '':'' \<notin> set S"
    using digits_only_no_sep by auto
  have "js_split (H @ CHR '':'' # (M @ CHR '':'' # S)) CHR '':''
          = H # js_split (M @ CHR '':'' # S) CHR '':''"
    using d(1) by (rule js_split_append_sep)
  also have "js_split (M @ CHR '':'' # S) CHR '':'' = M # js_split S CHR '':''"
    using d(2) by (rule js_split_append_sep)
  also have "js_split S CHR '':'' = [S]"
    using d(3) by (rule js_split_without_sep)
  finally have s2: "js_split (H @ CHR '':'' # M @ CHR '':'' # S) CHR '':'' = [H, M, S]"
    by simp
  show ?thesis
    by (simp add: s1 s2 nth_opt_def nth_num_def)
qed

lemma millis_fields:
  fixes tm :: int
  shows "(tm div 1000 div 60 div 60 * 3600 + tm div 1000 div 60 mod 60 * 60 + tm div 1000 mod 60)
           * 1000 + tm mod 1000 = tm"
proof -
  define s where "s = tm div 1000"
  define m where "m = s div 60"
  have a: "tm = 1000 * s + tm mod 1000" by (simp add: s_def)
  have b: "s = 60 * m + s mod 60" by (simp add: m_def)
  have c: "m = 60 * (m div 60) + m mod 60" by simp
  have g: "\<And>q r1 r2 r3 :: int.
      tm = 1000 * s + r1 \<Longrightarrow> s = 60 * m + r2 \<Longrightarrow> m = 60 * q + r3 \<Longrightarrow>
      (q * 3600 + r3 * 60 + r2) * 1000 + r1 = tm"
    by simp
  have "(m div 60 * 3600 + m mod 60 * 60 + s mod 60) * 1000 + tm mod 1000 = tm"
    using a b c by (rule g)
  then show ?thesis by (simp only: s_def m_def)
qed

lemma formatVTTTimestamp_no_comma: "CHR '','' \<notin> set (formatVTTTimestamp y)"
  by (simp add: formatVTTTimestamp_def Let_def pad_no_sep)

lemma parseTimestamp_formatVTTTimestamp:
  "parseTimestamp (Some (formatVTTTimestamp y)) = Inr NaN"
proof -
  have "js_split (formatVTTTimestamp y) CHR '','' = [formatVTTTimestamp y]"
    using formatVTTTimestamp_no_comma by (rule js_split_without_sep)
  then have "length (js_split (formatVTTTimestamp y) CHR '','') < 2" by simp
  then show ?thesis by (intro parseTimestamp_NaN disjI1)
qed

text \<open>
  Claim C5, as the code has it: for the comma-separated format, and with the product
  \<open>x * 1000\<close> taken as the code takes it, in doubles. For every non-negative seconds
  value whose double product with 1000 is below \<open>2^53\<close> (from there on not every integer
  is a double), parsing the formatted timestamp gives the floor of that double product.
  A period-separated timestamp, of any seconds value, is parsed to \<open>NaN\<close>.
\<close>

theorem parseTimestamp_formatSRTTimestamp:
  assumes "0 \<le> x" and "toDouble (toDouble x * 1000) < 2 ^ 53"
  shows "parseTimestamp (Some (formatSRTTimestamp x)) =
           Inr (Fin (of_int \<lfloor>toDouble (toDouble x * 1000)\<rfloor>))
         \<and> parseTimestamp (Some (formatVTTTimestamp y)) = Inr NaN"
proof -
  define tm where "tm = \<lfloor>toDouble (toDouble x * 1000)\<rfloor>"
  from assms(1) have "0 \<le> toDouble x * 1000" by (simp add: toDouble_nonneg)
  then have "0 \<le> toDouble (toDouble x * 1000)" by (rule toDouble_nonneg)
  then have tm: "0 \<le> tm" by (simp add: tm_def)
  define h where "h = tm div 1000 div 60 div 60"
  define m where "m = tm div 1000 div 60 mod 60"
  define s where "s = tm div 1000 mod 60"
  define ms where "ms = tm mod 1000"
  from tm have nn: "0 \<le> h" "0 \<le> m" "0 \<le> s" "0 \<le> ms"
    by (simp_all add: h_def m_def s_def ms_def pos_imp_zdiv_nonneg_iff)
  from tm have f: "formatSRTTimestamp x = pad h 2 @ '':'' @ pad m 2 @ '':'' @ pad s 2 @ '','' @ pad ms 3"
    by (simp add: formatSRTTimestamp_def Let_def tm_def [symmetric] js_rem_nonneg
        pos_imp_zdiv_nonneg_iff h_def m_def s_def ms_def)
  have "parseTimestamp (Some (formatSRTTimestamp x)) =
          Inr (Fin ((of_int h * 3600 + of_int m * 60 + of_int s) * 1000 + of_int ms))"
    using nn by (simp only: f parseTimestamp_fields pad_all_digits Number_js_pad) simp
  also have "(of_int h * 3600 + of_int m * 60 + of_int s) * 1000 + of_int ms
               = (of_int ((h * 3600 + m * 60 + s) * 1000 + ms) :: rat)"
    by simp
  also have "(h * 3600 + m * 60 + s) * 1000 + ms = tm"
    unfolding h_def m_def s_def ms_def by (rule millis_fields)
  finally have "parseTimestamp (Some (formatSRTTimestamp x)) = Inr (Fin (of_int tm))" .
  then show ?thesis by (simp only: tm_def parseTimestamp_formatVTTTimestamp simp_thms)
qed

theorem parseTimestamp_formatSRTTimestamp_witness:
  "(0::real) \<le> 0.29 \<and> toDouble (toDouble 0.29 * 1000) < 2 ^ 53
   \<and> formatSRTTimestamp 0.29 = ''00:00:00,290''
   \<and> parseTimestamp (Some ''00:00:00,290'') = Inr (Fin 290)"
proof -
  have a: "(0::real) \<le> 0.29" by simp
  have b: "toDouble (toDouble 0.29 * 1000) < 2 ^ 53" by (simp only: toDouble_0_29) simp
  have m: "\<lfloor>toDouble (toDouble 0.29 * 1000)\<rfloor> = 290" by (simp only: toDouble_0_29) simp
  then have m': "\<lfloor>toDouble (toDouble (29 / 100) * 1000)\<rfloor> = 290" by simp
  have f: "formatSRTTimestamp 0.29 = ''00:00:00,290''"
    by (simp add: formatSRTTimestamp_def m' pad_def toString_def js_rem_def digits.simps
        padLoop.simps digit_def)
  from parseTimestamp_formatSRTTimestamp [OF a b, of 0]
  have "parseTimestamp (Some (formatSRTTimestamp 0.29)) =
          Inr (Fin (of_int \<lfloor>toDouble (toDouble 0.29 * 1000)\<rfloor>))" ..
  then have "parseTimestamp (Some ''00:00:00,290'') = Inr (Fin 290)"
    by (simp only: f m) simp
  with a b f show ?thesis by blast
qed

text \<open>
  Claim C5 as stated fails twice. For the period-separated format \<open>parseTimestamp\<close>, which
  splits at a comma only, finds no milliseconds field and returns \<open>NaN\<close> instead of 1000.
  And at \<open>x = 1.001\<close>, a value of millisecond precision, the double product
  \<open>1.001 * 1000\<close> is \<open>1000.9999999999999\<close>: the timestamp reads \<open>00:00:01,000\<close> and parses to
  1000, while the floor of the exact product is 1001.
\<close>

theorem parseTimestamp_period_counterexample:
  "formatVTTTimestamp 1 = ''00:00:01.000''
   \<and> parseTimestamp (Some ''00:00:01.000'') = Inr NaN
   \<and> formatSRTTimestamp 1.001 = ''00:00:01,000''
   \<and> parseTimestamp (Some ''00:00:01,000'') = Inr (Fin 1000)
   \<and> \<lfloor>(1.001::real) * 1000\<rfloor> = 1001"
proof -
  have m1: "\<lfloor>toDouble (toDouble 1 * 1000)\<rfloor> = 1000"
    using millis_of_int [of 1] by simp
  have a: "formatVTTTimestamp 1 = ''00:00:01.000''"
    by (simp add: formatVTTTimestamp_def m1 pad_def toString_def js_rem_def digits.simps
        padLoop.simps digit_def)
  have b: "parseTimestamp (Some ''00:00:01.000'') = Inr NaN"
    by code_simp
  have "\<lfloor>toDouble (toDouble 1.001 * 1000)\<rfloor> = 1000"
    by (simp only: toDouble_1_001) simp
  then have m: "\<lfloor>toDouble (toDouble (1001 / 1000) * 1000)\<rfloor> = 1000" by simp
  have c: "formatSRTTimestamp 1.001 = ''00:00:01,000''"
    by (simp add: formatSRTTimestamp_def m pad_def toString_def js_rem_def digits.simps
        padLoop.simps digit_def)
  have d: "parseTimestamp (Some ''00:00:01,000'') = Inr (Fin 1000)"
    by code_simp
  have e: "\<lfloor>(1.001::real) * 1000\<rfloor> = 1001" by simp
  from a b c d e show ?thesis by blast
qed
end
